theory Spec2Isabelle
  imports Main "HOL-Library.AList" "HOL-Library.Product_Lexorder" "HOL-Library.Multiset"
begin

section \<open>Data model of the node-graph compiler\<close>

text \<open>
  The compiler works on JSON documents loaded into Python dictionaries. Node ids, type
  names and port names are Python strings and are modelled as \<open>string\<close>. A key that the
  source reads with \<open>d.get(k)\<close> and that may be missing or \<open>null\<close> is an \<open>option\<close>; a list
  read with \<open>d.get(k, [])\<close> is a list, the missing key being the empty list. Edge
  endpoints are taken to be strings (an edge always names its two ends).
\<close>

type_synonym ident = string

text \<open>The JSON value of a \<open>Literal\<close> node: what \<open>isinstance\<close> can tell apart, together with
  the text that \<open>str(val)\<close> yields where the source prints the value.\<close>

datatype pyval =
    PBool bool
  | PInt int
  | PFloat string
  | PStr string
  | PNone
  | POther string

record port =
  port_name :: "string option"
  port_type :: "string option"

record libdef =
  lib_include :: "string option"
  lib_name :: "string option"

record tdef =
  def_inputs :: "port list"
  def_outputs :: "port list"
  def_lib :: "libdef option"

text \<open>The catalog (\<open>node_defs\<close>) is a dictionary from node-type names to descriptors. It
  is a parameter of every function that consults it. A descriptor is taken to be a
  non-empty dictionary, so that \<open>not tdef\<close> in the source means that the type is absent.\<close>

type_synonym node_defs = "string \<Rightarrow> tdef option"

record node =
  nid :: ident
  ntype :: string
  nvalue :: pyval
  inputs :: "ident list"
  outputs :: "ident list"

record edge =
  efrom :: ident
  eto :: ident
  fromPort :: "string option"
  toPort :: "string option"

text \<open>Python truthiness of an optional string: \<open>None\<close> and the empty string are false.\<close>

fun truthy :: "string option \<Rightarrow> bool" where
  "truthy None = False"
| "truthy (Some s) = (s \<noteq> [])"

section \<open>Errors\<close>

text \<open>
  Every \<open>raise ValidationError(message, details)\<close> of the source is a constructor that
  carries the details of that place; the two raises of \<open>build_adj\<close> for an edge with an
  unknown end share the constructor \<open>UnknownNode\<close>. \<open>NameError\<close> is Python's own
  exception for a variable that is read but never bound, \<open>KeyError\<close> the one for a
  dictionary read at a key it does not have.
\<close>

record mismatch =
  mm_from :: ident
  mm_to :: ident
  mm_toPort :: "string option"
  mm_expected :: "string option"
  mm_actual :: "string option"
  mm_suggested_cast :: "string option"

datatype error =
    UnknownNode ident
  | UnknownInput ident ident
  | Cycle
  | UnknownNodeType ident string
  | UnknownEndpoint ident ident
  | MissingInputPort ident string "string option list"
  | MissingOutputPort ident string "string option list"
  | TypeMismatch mismatch
  | NameError string
  | KeyError ident

section \<open>Type lattice (validator.py)\<close>

text \<open>\<open>str.lower\<close> on the ASCII letters; strings are byte strings here.\<close>

definition lower_char :: "char \<Rightarrow> char" where
  "lower_char c =
     (let k = (of_char c :: nat) in if 65 \<le> k \<and> k \<le> 90 then char_of (k + 32) else c)"

definition lower :: "string \<Rightarrow> string" where
  "lower s = map lower_char s"

fun infer_literal_type :: "pyval \<Rightarrow> string" where
  "infer_literal_type (PBool b) = ''bool''"
| "infer_literal_type (PInt i) = ''int''"
| "infer_literal_type (PFloat r) = ''double''"
| "infer_literal_type (PStr s) = ''string''"
| "infer_literal_type v = ''any''"

definition canonical_type :: "string option \<Rightarrow> string" where
  "canonical_type t =
     (if \<not> truthy t then ''any''
      else let s = lower (the t) in
        if s \<in> {''number'', ''double'', ''float''} then ''double''
        else if s = ''int'' then ''int''
        else if s = ''string'' then ''string''
        else if s = ''bool'' then ''bool''
        else if s = ''any'' \<or> s = ''auto'' then ''any''
        else s)"

definition is_compatible :: "string option \<Rightarrow> string option \<Rightarrow> bool" where
  "is_compatible expected actual =
     (let e = canonical_type expected; a = canonical_type actual in
      if e = ''any'' \<or> a = ''any'' then True
      else if e = a then True
      else if e = ''double'' \<and> a = ''int'' then True
      else False)"

text \<open>The assignability relation as the specification words it, on canonical type names:
  \<open>any\<close> on either side, equal names, or \<open>int\<close> widening to \<open>double\<close>.\<close>

definition assignable :: "string \<Rightarrow> string \<Rightarrow> bool" where
  "assignable E A \<longleftrightarrow> E = ''any'' \<or> A = ''any'' \<or> E = A \<or> (E = ''double'' \<and> A = ''int'')"

text \<open>The canonical name of a type as the specification words it: the five rules, and
  anything else kept verbatim.\<close>

definition spec_canonical :: "string \<Rightarrow> string" where
  "spec_canonical t =
     (if t = ''number'' \<or> t = ''double'' \<or> t = ''float'' then ''double''
      else if t = ''int'' then ''int''
      else if t = ''string'' then ''string''
      else if t = ''bool'' then ''bool''
      else if t = ''any'' \<or> t = ''auto'' then ''any''
      else t)"

text \<open>Assignability of the actual type name to the expected one, as the specification
  words it: the relation above on the two canonical names.\<close>

definition spec_assignable :: "string \<Rightarrow> string \<Rightarrow> bool" where
  "spec_assignable expected actual \<longleftrightarrow>
     assignable (spec_canonical expected) (spec_canonical actual)"

text \<open>The same relation on the declared types read without regard to case: the name in
  lower case, and a type that is missing or empty read as \<open>any\<close>.\<close>

definition lowered_name :: "string option \<Rightarrow> string" where
  "lowered_name t = (case t of None \<Rightarrow> ''any'' | Some s \<Rightarrow> if s = [] then ''any'' else lower s)"

definition assignable_lowered :: "string option \<Rightarrow> string option \<Rightarrow> bool" where
  "assignable_lowered expected actual \<longleftrightarrow>
     spec_assignable (lowered_name expected) (lowered_name actual)"

section \<open>Port-level type checking (validator.py, validate_types)\<close>

text \<open>\<open>id_to_node = {n['id']: n for n in nodes}\<close>: the last node with an id is the one
  the dictionary holds.\<close>

definition id_to_node :: "node list \<Rightarrow> ident \<Rightarrow> node option" where
  "id_to_node nodes = map_of (rev (map (\<lambda>n. (nid n, n)) nodes))"

text \<open>First loop: every node type must be in the catalog; literals get their inferred
  type.\<close>

fun literal_types ::
  "node_defs \<Rightarrow> node list \<Rightarrow> (ident \<Rightarrow> string option option) \<Rightarrow>
   error + (ident \<Rightarrow> string option option)" where
  "literal_types defs [] tab = Inr tab"
| "literal_types defs (n # ns) tab =
     (case defs (ntype n) of
        None \<Rightarrow> Inl (UnknownNodeType (nid n) (ntype n))
      | Some d \<Rightarrow>
          if ntype n = ''Literal''
          then literal_types defs ns (tab(nid n \<mapsto> Some (infer_literal_type (nvalue n))))
          else literal_types defs ns tab)"

text \<open>Second loop: a node without an entry gets the type of its first declared output.\<close>

fun declared_types ::
  "node_defs \<Rightarrow> node list \<Rightarrow> (ident \<Rightarrow> string option option) \<Rightarrow>
   (ident \<Rightarrow> string option option)" where
  "declared_types defs [] tab = tab"
| "declared_types defs (n # ns) tab =
     (if tab (nid n) \<noteq> None then declared_types defs ns tab
      else case defs (ntype n) of
        None \<Rightarrow> declared_types defs ns tab
      | Some d \<Rightarrow>
          (case def_outputs d of
             [] \<Rightarrow> declared_types defs ns tab
           | p # ps \<Rightarrow> declared_types defs ns (tab(nid n \<mapsto> port_type p))))"

text \<open>A connection is the tuple \<open>(frm, to, toPort, fromPort)\<close>; an edge carries the same
  four components. Without edges the connections are the positional inputs of each node.\<close>

definition input_conns :: "node list \<Rightarrow> edge list" where
  "input_conns nodes =
     concat (map (\<lambda>n. map (\<lambda>inp. \<lparr>efrom = inp, eto = nid n, fromPort = None, toPort = None\<rparr>)
                        (inputs n)) nodes)"

definition connections :: "node list \<Rightarrow> edge list \<Rightarrow> edge list" where
  "connections nodes edges = (if edges \<noteq> [] then edges else input_conns nodes)"

fun check_endpoints :: "node list \<Rightarrow> edge list \<Rightarrow> error + unit" where
  "check_endpoints nodes [] = Inr ()"
| "check_endpoints nodes (c # cs) =
     (if id_to_node nodes (efrom c) = None \<or> id_to_node nodes (eto c) = None
      then Inl (UnknownEndpoint (efrom c) (eto c))
      else check_endpoints nodes cs)"

text \<open>\<open>incoming_by_dest.setdefault(to, []).append(c)\<close>: a dictionary in insertion order.\<close>

fun group_by_dest :: "edge list \<Rightarrow> (ident \<times> edge list) list \<Rightarrow> (ident \<times> edge list) list" where
  "group_by_dest [] acc = acc"
| "group_by_dest (c # cs) acc =
     group_by_dest cs
       (case map_of acc (eto c) of
          None \<Rightarrow> acc @ [(eto c, [c])]
        | Some old \<Rightarrow> AList.update (eto c) (old @ [c]) acc)"

definition expected_type :: "ident \<Rightarrow> port list \<Rightarrow> nat \<Rightarrow> edge \<Rightarrow> error + string option" where
  "expected_type dest dest_inputs idx c =
     (if truthy (toPort c) then
        (case find (\<lambda>p. port_name p = toPort c) dest_inputs of
           None \<Rightarrow> Inl (MissingInputPort dest (the (toPort c)) (map port_name dest_inputs))
         | Some p \<Rightarrow> Inr (port_type p))
      else if idx < length dest_inputs then Inr (port_type (dest_inputs ! idx))
      else Inr (Some ''any''))"

definition actual_type ::
  "(ident \<Rightarrow> string option option) \<Rightarrow> port list \<Rightarrow> edge \<Rightarrow> error + string option" where
  "actual_type tab src_outputs c =
     (if truthy (fromPort c) then
        (case find (\<lambda>p. port_name p = fromPort c) src_outputs of
           None \<Rightarrow> Inl (MissingOutputPort (efrom c) (the (fromPort c)) (map port_name src_outputs))
         | Some p \<Rightarrow> Inr (port_type p))
      else
        (let known = (case tab (efrom c) of None \<Rightarrow> None | Some t \<Rightarrow> t) in
         if truthy known then Inr known
         else case src_outputs of [] \<Rightarrow> Inr (Some ''any'') | p # ps \<Rightarrow> Inr (port_type p)))"

text \<open>The comparison that ends the loop body, with the details dictionary it raises.\<close>

definition compare_types :: "edge \<Rightarrow> string option \<Rightarrow> string option \<Rightarrow> error + unit" where
  "compare_types c expected actual =
     (if \<not> is_compatible expected actual
      then Inl (TypeMismatch \<lparr>mm_from = efrom c, mm_to = eto c, mm_toPort = toPort c,
                              mm_expected = expected, mm_actual = actual,
                              mm_suggested_cast = expected\<rparr>)
      else Inr ())"

definition outputs_of_type :: "node_defs \<Rightarrow> string \<Rightarrow> port list" where
  "outputs_of_type defs t = (case defs t of None \<Rightarrow> [] | Some d \<Rightarrow> def_outputs d)"

definition inputs_of_type :: "node_defs \<Rightarrow> string \<Rightarrow> port list" where
  "inputs_of_type defs t = (case defs t of None \<Rightarrow> [] | Some d \<Rightarrow> def_inputs d)"

text \<open>The body of the inner loop for one incoming connection at position \<open>idx\<close>. The
  source node was checked to exist before the loop; were it missing, \<open>id_to_node[frm]\<close>
  would be a \<open>KeyError\<close>.\<close>

definition check_connection ::
  "node list \<Rightarrow> node_defs \<Rightarrow> (ident \<Rightarrow> string option option) \<Rightarrow> ident \<Rightarrow> port list \<Rightarrow>
   nat \<Rightarrow> edge \<Rightarrow> error + unit" where
  "check_connection nodes defs tab dest dest_inputs idx c =
     (case expected_type dest dest_inputs idx c of
        Inl e \<Rightarrow> Inl e
      | Inr expected \<Rightarrow>
          (case id_to_node nodes (efrom c) of
             None \<Rightarrow> Inl (KeyError (efrom c))
           | Some src_node \<Rightarrow>
               (case actual_type tab (outputs_of_type defs (ntype src_node)) c of
                  Inl e \<Rightarrow> Inl e
                | Inr actual \<Rightarrow> compare_types c expected actual)))"

fun check_incoming ::
  "node list \<Rightarrow> node_defs \<Rightarrow> (ident \<Rightarrow> string option option) \<Rightarrow> ident \<Rightarrow> port list \<Rightarrow>
   nat \<Rightarrow> edge list \<Rightarrow> error + unit" where
  "check_incoming nodes defs tab dest dest_inputs idx [] = Inr ()"
| "check_incoming nodes defs tab dest dest_inputs idx (c # cs) =
     (case check_connection nodes defs tab dest dest_inputs idx c of
        Inl e \<Rightarrow> Inl e
      | Inr u \<Rightarrow> check_incoming nodes defs tab dest dest_inputs (Suc idx) cs)"

fun check_dests ::
  "node list \<Rightarrow> node_defs \<Rightarrow> (ident \<Rightarrow> string option option) \<Rightarrow>
   (ident \<times> edge list) list \<Rightarrow> error + unit" where
  "check_dests nodes defs tab [] = Inr ()"
| "check_dests nodes defs tab ((dest, incoming) # rest) =
     (case id_to_node nodes dest of
        None \<Rightarrow> Inl (KeyError dest)
      | Some dest_node \<Rightarrow>
          (case check_incoming nodes defs tab dest
                  (inputs_of_type defs (ntype dest_node)) 0 incoming of
             Inl e \<Rightarrow> Inl e
           | Inr u \<Rightarrow> check_dests nodes defs tab rest))"

definition validate_types :: "node list \<Rightarrow> node_defs \<Rightarrow> edge list \<Rightarrow> error + bool" where
  "validate_types nodes defs edges =
     (case literal_types defs nodes Map.empty of
        Inl e \<Rightarrow> Inl e
      | Inr tab0 \<Rightarrow>
          (let tab = declared_types defs nodes tab0;
               conns = connections nodes edges in
           case check_endpoints nodes conns of
             Inl e \<Rightarrow> Inl e
           | Inr u \<Rightarrow>
               (case check_dests nodes defs tab (group_by_dest conns []) of
                  Inl e \<Rightarrow> Inl e
                | Inr u' \<Rightarrow> Inr True)))"

section \<open>Graph algorithms (validator.py, build_adj and topological_sort)\<close>

text \<open>\<open>adj\<close> and \<open>indeg\<close> are dictionaries over the node ids. Their keys are the node
  ids in the order of first occurrence; their values are read here as functions.\<close>

type_synonym adjacency = "ident \<Rightarrow> ident list"
type_synonym indegree = "ident \<Rightarrow> int"

fun dict_keys :: "ident list \<Rightarrow> ident list" where
  "dict_keys [] = []"
| "dict_keys (k # ks) = k # filter (\<lambda>x. x \<noteq> k) (dict_keys ks)"

text \<open>\<open>adj[frm].append(to); indeg[to] += 1\<close>.\<close>

definition link :: "ident \<Rightarrow> ident \<Rightarrow> adjacency \<times> indegree \<Rightarrow> adjacency \<times> indegree" where
  "link frm to g = ((fst g)(frm := fst g frm @ [to]), (snd g)(to := snd g to + 1))"

fun add_edges ::
  "ident list \<Rightarrow> edge list \<Rightarrow> adjacency \<times> indegree \<Rightarrow> error + adjacency \<times> indegree" where
  "add_edges node_ids [] g = Inr g"
| "add_edges node_ids (e # es) g =
     (if efrom e \<notin> set node_ids then Inl (UnknownNode (efrom e))
      else if eto e \<notin> set node_ids then Inl (UnknownNode (eto e))
      else add_edges node_ids es (link (efrom e) (eto e) g))"

text \<open>The fallback without edges: the inputs of one node, and the loop over the nodes.\<close>

fun add_inputs ::
  "ident list \<Rightarrow> ident \<Rightarrow> ident list \<Rightarrow> adjacency \<times> indegree \<Rightarrow>
   error + adjacency \<times> indegree" where
  "add_inputs node_ids i [] g = Inr g"
| "add_inputs node_ids i (inp # inps) g =
     (if inp \<notin> set node_ids then Inl (UnknownInput i inp)
      else add_inputs node_ids i inps (link inp i g))"

fun add_node_inputs ::
  "ident list \<Rightarrow> node list \<Rightarrow> adjacency \<times> indegree \<Rightarrow> error + adjacency \<times> indegree" where
  "add_node_inputs node_ids [] g = Inr g"
| "add_node_inputs node_ids (n # ns) g =
     (case add_inputs node_ids (nid n) (inputs n) g of
        Inl e \<Rightarrow> Inl e
      | Inr g' \<Rightarrow> add_node_inputs node_ids ns g')"

definition build_adj :: "node list \<Rightarrow> edge list \<Rightarrow> error + adjacency \<times> indegree" where
  "build_adj nodes edges =
     (let node_ids = map nid nodes in
      if edges \<noteq> [] then add_edges node_ids edges (\<lambda>i. [], \<lambda>i. 0)
      else add_node_inputs node_ids nodes (\<lambda>i. [], \<lambda>i. 0))"

text \<open>The inner loop of Kahn's algorithm over \<open>adj[n]\<close>: the state is \<open>indeg\<close> and the
  queue. \<open>indeg[m] -= 1\<close> on a key that the dictionary does not have is a \<open>KeyError\<close>.\<close>

fun relax ::
  "ident list \<Rightarrow> ident list \<Rightarrow> indegree \<times> ident list \<Rightarrow> error + indegree \<times> ident list" where
  "relax keys [] s = Inr s"
| "relax keys (m # ms) s =
     (if m \<notin> set keys then Inl (KeyError m)
      else relax keys ms
             ((fst s)(m := fst s m - 1),
              if fst s m - 1 = 0 then snd s @ [m] else snd s))"

lemma filter_length_le:
  "(\<And>x. P x \<Longrightarrow> Q x) \<Longrightarrow> length (filter P xs) \<le> length (filter Q xs)"
  by (induction xs) auto

lemma filter_length_less:
  "x \<in> set xs \<Longrightarrow> Q x \<Longrightarrow> \<not> P x \<Longrightarrow> (\<And>y. P y \<Longrightarrow> Q y) \<Longrightarrow>
   length (filter P xs) < length (filter Q xs)"
proof (induction xs)
  case Nil
  then show ?case by simp
next
  case (Cons a xs)
  have le: "length (filter P xs) \<le> length (filter Q xs)"
    by (rule filter_length_le) (rule Cons.prems(4))
  show ?case
  proof (cases "a = x")
    case True
    then show ?thesis using Cons.prems le by simp
  next
    case False
    then have "x \<in> set xs" using Cons.prems by simp
    then have "length (filter P xs) < length (filter Q xs)"
      using Cons.IH Cons.prems by blast
    then show ?thesis using Cons.prems(4) by auto
  qed
qed

lemma relax_measure:
  "relax keys ms s = Inr s' \<Longrightarrow>
   length (snd s') + length (filter (\<lambda>k. 0 < fst s' k) keys)
     \<le> length (snd s) + length (filter (\<lambda>k. 0 < fst s k) keys)"
proof (induction ms arbitrary: s)
  case Nil
  then show ?case by simp
next
  case (Cons m ms)
  from Cons.prems have mk: "m \<in> set keys"
    by (auto split: if_splits)
  let ?i = "(fst s)(m := fst s m - 1)"
  let ?q = "if fst s m - 1 = 0 then snd s @ [m] else snd s"
  from Cons.prems mk have run: "relax keys ms (?i, ?q) = Inr s'" by simp
  have ih: "length (snd s') + length (filter (\<lambda>k. 0 < fst s' k) keys)
              \<le> length ?q + length (filter (\<lambda>k. 0 < ?i k) keys)"
    using Cons.IH [OF run] by simp
  have le: "length (filter (\<lambda>k. 0 < ?i k) keys) \<le> length (filter (\<lambda>k. 0 < fst s k) keys)"
    by (rule filter_length_le) (auto split: if_splits)
  show ?case
  proof (cases "fst s m - 1 = 0")
    case False
    then show ?thesis using ih le by simp
  next
    case True
    have "length (filter (\<lambda>k. 0 < ?i k) keys) < length (filter (\<lambda>k. 0 < fst s k) keys)"
      by (rule filter_length_less [OF mk]) (use True in \<open>auto split: if_splits\<close>)
    then show ?thesis using ih True by simp
  qed
qed

text \<open>The outer loop: \<open>n = q.pop(0); order_ids.append(n)\<close>, then the inner loop.\<close>

function kahn ::
  "ident list \<Rightarrow> adjacency \<Rightarrow> indegree \<Rightarrow> ident list \<Rightarrow> ident list \<Rightarrow> error + ident list" where
  "kahn keys adj indeg [] order_ids = Inr order_ids"
| "kahn keys adj indeg (n # q) order_ids =
     (case relax keys (adj n) (indeg, q) of
        Inl e \<Rightarrow> Inl e
      | Inr s \<Rightarrow> kahn keys adj (fst s) (snd s) (order_ids @ [n]))"
  by pat_completeness auto
termination
proof (relation "measure (\<lambda>(keys, adj, indeg, q, order_ids).
                   length q + length (filter (\<lambda>k. 0 < indeg k) keys))")
  show "wf (measure (\<lambda>(keys, adj, indeg, q, order_ids).
                   length q + length (filter (\<lambda>k. 0 < indeg k) keys)))"
    by simp
next
  fix keys :: "ident list" and adj :: adjacency and indeg :: indegree and n q order_ids s
  assume "relax keys (adj n) (indeg, q) = Inr s"
  from relax_measure [OF this]
  show "((keys, adj, fst s, snd s, order_ids @ [n]), (keys, adj, indeg, n # q, order_ids))
        \<in> measure (\<lambda>(keys, adj, indeg, q, order_ids).
                     length q + length (filter (\<lambda>k. 0 < indeg k) keys))"
    by simp
qed

text \<open>\<open>[id_to_node[i] for i in order_ids]\<close>.\<close>

fun fetch_nodes :: "node list \<Rightarrow> ident list \<Rightarrow> error + node list" where
  "fetch_nodes nodes [] = Inr []"
| "fetch_nodes nodes (i # is) =
     (case id_to_node nodes i of
        None \<Rightarrow> Inl (KeyError i)
      | Some n \<Rightarrow>
          (case fetch_nodes nodes is of Inl e \<Rightarrow> Inl e | Inr ns \<Rightarrow> Inr (n # ns)))"

definition topological_sort :: "node list \<Rightarrow> edge list \<Rightarrow> error + node list" where
  "topological_sort nodes edges =
     (case build_adj nodes edges of
        Inl e \<Rightarrow> Inl e
      | Inr g \<Rightarrow>
          (let keys = dict_keys (map nid nodes);
               q = filter (\<lambda>k. snd g k = 0) keys
           in case kahn keys (fst g) (snd g) q [] of
                Inl e \<Rightarrow> Inl e
              | Inr order_ids \<Rightarrow>
                  if length order_ids \<noteq> length nodes then Inl Cycle
                  else fetch_nodes nodes order_ids))"

text \<open>The graph that \<open>topological_sort\<close> sorts, as pairs \<open>(source, destination)\<close>: the
  edge list when it is not empty, else one pair per input of every node.\<close>

definition graph_edges :: "node list \<Rightarrow> edge list \<Rightarrow> (ident \<times> ident) list" where
  "graph_edges nodes edges =
     (if edges \<noteq> [] then map (\<lambda>e. (efrom e, eto e)) edges
      else concat (map (\<lambda>n. map (\<lambda>inp. (inp, nid n)) (inputs n)) nodes))"

text \<open>Every pair of the graph has both ends among the nodes.\<close>

definition endpoints_exist :: "node list \<Rightarrow> edge list \<Rightarrow> bool" where
  "endpoints_exist nodes edges \<longleftrightarrow>
     list_all (\<lambda>p. fst p \<in> set (map nid nodes) \<and> snd p \<in> set (map nid nodes))
       (graph_edges nodes edges)"

text \<open>In a list of nodes, the node with id \<open>u\<close> stands before the node with id \<open>v\<close>.\<close>

definition precedes :: "node list \<Rightarrow> ident \<Rightarrow> ident \<Rightarrow> bool" where
  "precedes res u v \<longleftrightarrow>
     (\<exists>i j. i < j \<and> j < length res \<and> nid (res ! i) = u \<and> nid (res ! j) = v)"

text \<open>The adjacency and the in-degrees of a list of pairs, as \<open>build_adj\<close> computes them.\<close>

definition adj_of :: "(ident \<times> ident) list \<Rightarrow> adjacency" where
  "adj_of G n = map snd (filter (\<lambda>p. fst p = n) G)"

definition indeg_of :: "(ident \<times> ident) list \<Rightarrow> indegree" where
  "indeg_of G m = int (length (filter (\<lambda>p. snd p = m) G))"

text \<open>In a list of ids, \<open>u\<close> stands before \<open>v\<close>.\<close>

definition before :: "ident list \<Rightarrow> ident \<Rightarrow> ident \<Rightarrow> bool" where
  "before xs u v \<longleftrightarrow> (\<exists>i j. i < j \<and> j < length xs \<and> xs ! i = u \<and> xs ! j = v)"

text \<open>The invariant of the outer loop: the ids taken so far and the queue are distinct
  node ids; the in-degree of a node counts its incoming pairs whose source is not yet
  taken; the nodes taken or queued are those of in-degree 0; and every pair that ends at
  a taken node starts at a node taken earlier.\<close>

definition kahn_inv ::
  "ident list \<Rightarrow> (ident \<times> ident) list \<Rightarrow> indegree \<Rightarrow> ident list \<Rightarrow> ident list \<Rightarrow> bool" where
  "kahn_inv ids G indeg q order_ids \<longleftrightarrow>
     distinct (order_ids @ q) \<and> set (order_ids @ q) \<subseteq> set ids
     \<and> (\<forall>m. indeg m = int (length (filter (\<lambda>p. snd p = m \<and> fst p \<notin> set order_ids) G)))
     \<and> (\<forall>m\<in>set ids. m \<in> set (order_ids @ q) \<longleftrightarrow> indeg m = 0)
     \<and> (\<forall>p\<in>set G. snd p \<in> set order_ids \<longrightarrow> before order_ids (fst p) (snd p))"

section \<open>Source map entries and compiler diagnostics\<close>

text \<open>A mapping entry \<open>{node_id, function, start_line, end_line, start_col, end_col,
  port}\<close>. The emitter always writes \<open>node_id\<close> and the two lines; the columns of a
  coarse entry are \<open>None\<close> until the table is finalized. Positions are Python integers.\<close>

record mapping_entry =
  me_node_id :: ident
  me_function :: "string option"
  start_line :: "int option"
  end_line :: "int option"
  start_col :: "int option"
  end_col :: "int option"
  me_port :: "string option"

record diagnostic =
  d_file :: string
  d_line :: int
  d_col :: "int option"
  d_kind :: string
  d_msg :: string

record mapped_error =
  m_error :: diagnostic
  m_node_id :: "ident option"
  m_function :: "string option"
  m_port :: "string option"

section \<open>Diagnostic back-projection (emit-and-compile script, function map-errors-to-nodes)\<close>

text \<open>Python truthiness of an optional integer: \<open>None\<close> and \<open>0\<close> are false.\<close>

fun truthy_int :: "int option \<Rightarrow> bool" where
  "truthy_int None = False"
| "truthy_int (Some v) = (v \<noteq> 0)"

text \<open>\<open>x.get(k, 0)\<close> in the sort keys.\<close>

fun get0 :: "int option \<Rightarrow> int" where
  "get0 None = 0"
| "get0 (Some v) = v"

definition col_match :: "int \<Rightarrow> int \<Rightarrow> mapping_entry \<Rightarrow> bool" where
  "col_match line col m \<longleftrightarrow>
     truthy_int (start_line m) \<and> truthy_int (end_line m)
     \<and> get0 (start_line m) \<le> line \<and> line \<le> get0 (end_line m)
     \<and> truthy_int (start_col m) \<and> truthy_int (end_col m)
     \<and> get0 (start_col m) \<le> col \<and> col \<le> get0 (end_col m)"

definition line_match :: "int \<Rightarrow> mapping_entry \<Rightarrow> bool" where
  "line_match line m \<longleftrightarrow>
     truthy_int (start_line m) \<and> truthy_int (end_line m)
     \<and> get0 (start_line m) \<le> line \<and> line \<le> get0 (end_line m)"

text \<open>The two sort keys: \<open>(x.get('end_line', 0) - x.get('start_line', 0),
  x.get('end_col', 0) - x.get('start_col', 0))\<close> for the column matches, compared as Python
  compares tuples, and \<open>x['end_line'] - x['start_line']\<close> for the line matches, whose
  line bounds are present.\<close>

definition col_key :: "mapping_entry \<Rightarrow> int \<times> int" where
  "col_key x = (get0 (end_line x) - get0 (start_line x), get0 (end_col x) - get0 (start_col x))"

definition line_key :: "mapping_entry \<Rightarrow> int" where
  "line_key x = get0 (end_line x) - get0 (start_line x)"

definition attribute :: "diagnostic \<Rightarrow> mapping_entry \<Rightarrow> mapped_error" where
  "attribute err node =
     \<lparr>m_error = err, m_node_id = Some (me_node_id node), m_function = me_function node,
      m_port = me_port node\<rparr>"

definition unmapped :: "diagnostic \<Rightarrow> mapped_error" where
  "unmapped err = \<lparr>m_error = err, m_node_id = None, m_function = None, m_port = None\<rparr>"

text \<open>The loop body for one diagnostic. \<open>list.sort\<close> is stable, as \<open>sort_key\<close> is, and the
  entry taken is the first of the sorted list.\<close>

definition map_error :: "mapping_entry list \<Rightarrow> diagnostic \<Rightarrow> mapped_error" where
  "map_error mapping err =
     (let line = d_line err;
          colMatches = (case d_col err of
                          None \<Rightarrow> []
                        | Some col \<Rightarrow> filter (col_match line col) mapping)
      in if colMatches \<noteq> [] then attribute err (hd (sort_key col_key colMatches))
         else let lineMatches = filter (line_match line) mapping
              in if lineMatches \<noteq> [] then attribute err (hd (sort_key line_key lineMatches))
                 else unmapped err)"

definition map_errors_to_nodes :: "diagnostic list \<Rightarrow> mapping_entry list \<Rightarrow> mapped_error list" where
  "map_errors_to_nodes errors mapping = map (map_error mapping) errors"

text \<open>What the specification calls enclosing: the entry has the four bounds and the
  position lies within them; and containing a line: it has the two line bounds.\<close>

definition encloses :: "mapping_entry \<Rightarrow> int \<Rightarrow> int \<Rightarrow> bool" where
  "encloses m line col \<longleftrightarrow>
     (case (start_line m, end_line m, start_col m, end_col m) of
        (Some sl, Some el, Some sc, Some ec) \<Rightarrow> sl \<le> line \<and> line \<le> el \<and> sc \<le> col \<and> col \<le> ec
      | _ \<Rightarrow> False)"

definition contains_line :: "mapping_entry \<Rightarrow> int \<Rightarrow> bool" where
  "contains_line m line \<longleftrightarrow>
     (case (start_line m, end_line m) of
        (Some sl, Some el) \<Rightarrow> sl \<le> line \<and> line \<le> el
      | _ \<Rightarrow> False)"

text \<open>The size of a span in the words of the specification: the number of lines between
  its first and its last line, and the number of columns between its first and its last
  column. Its area is the pair of the two, and areas are compared first by lines, then by
  columns.\<close>

definition line_extent :: "mapping_entry \<Rightarrow> int" where
  "line_extent m =
     (case (start_line m, end_line m) of (Some sl, Some el) \<Rightarrow> el - sl | _ \<Rightarrow> 0)"

definition col_extent :: "mapping_entry \<Rightarrow> int" where
  "col_extent m =
     (case (start_col m, end_col m) of (Some sc, Some ec) \<Rightarrow> ec - sc | _ \<Rightarrow> 0)"

definition area_le :: "mapping_entry \<Rightarrow> mapping_entry \<Rightarrow> bool" where
  "area_le m m' \<longleftrightarrow>
     line_extent m < line_extent m'
     \<or> (line_extent m = line_extent m' \<and> col_extent m \<le> col_extent m')"

text \<open>Lines and columns of a mapping entry are 1-based: a start that is present is at
  least 1.\<close>

definition one_based :: "mapping_entry \<Rightarrow> bool" where
  "one_based m \<longleftrightarrow>
     (case start_line m of None \<Rightarrow> True | Some v \<Rightarrow> 1 \<le> v)
     \<and> (case start_col m of None \<Rightarrow> True | Some v \<Rightarrow> 1 \<le> v)"

text \<open>Some entry encloses the position of the diagnostic, which then has a column.\<close>

definition has_enclosing :: "mapping_entry list \<Rightarrow> diagnostic \<Rightarrow> bool" where
  "has_enclosing mapping err \<longleftrightarrow>
     (\<exists>col. d_col err = Some col \<and> (\<exists>m\<in>set mapping. encloses m (d_line err) col))"

section \<open>C++ emitter (cpp-emitter module)\<close>

subsection \<open>Printing and sanitizing\<close>

text \<open>\<open>str(n)\<close> of a Python integer, in decimal.\<close>

definition digit_char :: "nat \<Rightarrow> char" where
  "digit_char d = char_of (48 + d)"

function show_nat :: "nat \<Rightarrow> string" where
  "show_nat n = (if n < 10 then [digit_char n] else show_nat (n div 10) @ [digit_char (n mod 10)])"
  by pat_completeness auto
termination
  by (relation "measure (\<lambda>n. n)") auto

declare show_nat.simps [simp del]

definition show_int :: "int \<Rightarrow> string" where
  "show_int i = (if i < 0 then CHR ''-'' # show_nat (nat (- i)) else show_nat (nat i))"

fun py_str :: "pyval \<Rightarrow> string" where
  "py_str (PBool b) = (if b then ''True'' else ''False'')"
| "py_str (PInt i) = show_int i"
| "py_str (PFloat r) = r"
| "py_str (PStr s) = s"
| "py_str PNone = ''None''"
| "py_str (POther s) = s"

text \<open>The character class \<open>[0-9a-zA-Z_]\<close> and its digits.\<close>

definition is_digit :: "char \<Rightarrow> bool" where
  "is_digit c = (let k = (of_char c :: nat) in 48 \<le> k \<and> k \<le> 57)"

definition is_word_char :: "char \<Rightarrow> bool" where
  "is_word_char c =
     (let k = (of_char c :: nat) in
      (48 \<le> k \<and> k \<le> 57) \<or> (97 \<le> k \<and> k \<le> 122) \<or> (65 \<le> k \<and> k \<le> 90) \<or> k = 95)"

text \<open>\<open>re.sub(r'[^0-9a-zA-Z_]', '_', node_id)\<close>.\<close>

definition sub_invalid :: "string \<Rightarrow> string" where
  "sub_invalid s = map (\<lambda>c. if is_word_char c then c else CHR ''_'') s"

definition sanitize :: "string \<Rightarrow> string" where
  "sanitize node_id =
     (let s = sub_invalid node_id in
      case s of [] \<Rightarrow> s | c # cs \<Rightarrow> if is_digit c then CHR ''_'' # s else s)"

text \<open>\<open>s.replace(c, r)\<close> for a one-character pattern, and the four replacements of
  \<open>escape_string\<close> in their order.\<close>

definition replace_char :: "char \<Rightarrow> string \<Rightarrow> string \<Rightarrow> string" where
  "replace_char c r s = concat (map (\<lambda>x. if x = c then r else [x]) s)"

definition escape_string :: "string \<Rightarrow> string" where
  "escape_string s =
     replace_char (char_of (9::nat)) [char_of (92::nat), CHR ''t'']
       (replace_char (char_of (10::nat)) [char_of (92::nat), CHR ''n'']
          (replace_char (char_of (34::nat)) [char_of (92::nat), char_of (34::nat)]
             (replace_char (char_of (92::nat)) [char_of (92::nat), char_of (92::nat)] s)))"

subsection \<open>Emitter state\<close>

text \<open>The fields of \<open>CppEmitter\<close>. The field \<open>includes\<close> is \<open>include_set\<close> and the field
  \<open>mapping\<close> is \<open>mapping_entries\<close> here. \<open>_used_names\<close> counts the uses of a base name.\<close>

record emitter =
  node_defs :: node_defs
  include_set :: "string set"
  code_lines :: "string list"
  indent_level :: nat
  var_names :: "ident \<Rightarrow> string option"
  used_names :: "string \<Rightarrow> nat option"
  mapping_entries :: "mapping_entry list"
  incoming_by_node :: "ident \<Rightarrow> (string \<Rightarrow> ident option) option"
  incoming_list_by_node :: "ident \<Rightarrow> ident list option"

text \<open>The state that \<open>emit_function_def\<close> keeps in local variables for one function body.\<close>

record local_scope =
  fn_name :: "string option"
  local_var_names :: "ident \<Rightarrow> string option"
  local_used_names :: "string \<Rightarrow> nat option"
  local_incoming_map :: "ident \<Rightarrow> (string \<Rightarrow> ident option) option"
  local_incoming_list :: "ident \<Rightarrow> ident list option"

text \<open>The constructor's loop over the edges: a dictionary of named ports for every
  destination, and the list of positional sources.\<close>

definition add_incoming ::
  "edge \<Rightarrow> (ident \<Rightarrow> (string \<Rightarrow> ident option) option) \<times> (ident \<Rightarrow> ident list option) \<Rightarrow>
   (ident \<Rightarrow> (string \<Rightarrow> ident option) option) \<times> (ident \<Rightarrow> ident list option)" where
  "add_incoming e acc =
     (let by_port = fst acc; by_pos = snd acc;
          by_port1 = (if by_port (eto e) = None then by_port(eto e \<mapsto> Map.empty) else by_port)
      in if truthy (toPort e)
         then (by_port1(eto e \<mapsto>
                 (case by_port1 (eto e) of None \<Rightarrow> Map.empty | Some d \<Rightarrow> d)
                   (the (toPort e) \<mapsto> efrom e)), by_pos)
         else (by_port1,
               by_pos(eto e \<mapsto> (case by_pos (eto e) of None \<Rightarrow> [] | Some l \<Rightarrow> l) @ [efrom e])))"

definition init_emitter :: "string list \<Rightarrow> edge list \<Rightarrow> node_defs \<Rightarrow> emitter" where
  "init_emitter imports edges defs =
     (let inc = fold add_incoming edges (Map.empty, Map.empty) in
      \<lparr>node_defs = defs, include_set = set imports, code_lines = [], indent_level = 0,
       var_names = Map.empty, used_names = Map.empty, mapping_entries = [],
       incoming_by_node = fst inc, incoming_list_by_node = snd inc\<rparr>)"

text \<open>The loop over a function's edges in \<open>emit_function_def\<close>.\<close>

definition add_local_incoming ::
  "edge \<Rightarrow> (ident \<Rightarrow> (string \<Rightarrow> ident option) option) \<times> (ident \<Rightarrow> ident list option) \<Rightarrow>
   (ident \<Rightarrow> (string \<Rightarrow> ident option) option) \<times> (ident \<Rightarrow> ident list option)" where
  "add_local_incoming e acc =
     (let by_port = fst acc; by_pos = snd acc
      in if truthy (toPort e)
         then (by_port(eto e \<mapsto>
                 (case by_port (eto e) of None \<Rightarrow> Map.empty | Some d \<Rightarrow> d)
                   (the (toPort e) \<mapsto> efrom e)), by_pos)
         else (by_port,
               by_pos(eto e \<mapsto> (case by_pos (eto e) of None \<Rightarrow> [] | Some l \<Rightarrow> l) @ [efrom e])))"

definition init_scope :: "string option \<Rightarrow> edge list \<Rightarrow> local_scope" where
  "init_scope name edges =
     (let inc = fold add_local_incoming edges (Map.empty, Map.empty) in
      \<lparr>fn_name = name, local_var_names = Map.empty, local_used_names = Map.empty,
       local_incoming_map = fst inc, local_incoming_list = snd inc\<rparr>)"

definition indent :: "emitter \<Rightarrow> string" where
  "indent st = replicate (4 * indent_level st) CHR '' ''"

subsection \<open>Variable names\<close>

definition make_var :: "emitter \<Rightarrow> ident \<Rightarrow> string \<times> emitter" where
  "make_var st node_id =
     (let base = ''v_'' @ sanitize node_id;
          count = (case used_names st base of None \<Rightarrow> 0 | Some c \<Rightarrow> c)
      in if count = 0 then (base, st\<lparr>used_names := (used_names st)(base \<mapsto> 1)\<rparr>)
         else (base @ ''_'' @ show_nat count,
               st\<lparr>used_names := (used_names st)(base \<mapsto> count + 1)\<rparr>))"

text \<open>The local allocator substitutes the invalid characters and does not look at a
  leading digit.\<close>

definition local_make_var :: "local_scope \<Rightarrow> ident \<Rightarrow> string \<times> local_scope" where
  "local_make_var sc node_id =
     (let base = ''v_'' @ sub_invalid node_id;
          count = (case local_used_names sc base of None \<Rightarrow> 0 | Some c \<Rightarrow> c)
      in if count = 0 then (base, sc\<lparr>local_used_names := (local_used_names sc)(base \<mapsto> 1)\<rparr>)
         else (base @ ''_'' @ show_nat count,
               sc\<lparr>local_used_names := (local_used_names sc)(base \<mapsto> count + 1)\<rparr>))"

definition ensure_lib_includes :: "emitter \<Rightarrow> string \<Rightarrow> emitter" where
  "ensure_lib_includes st node_type =
     (case node_defs st node_type of
        None \<Rightarrow> st
      | Some ddef \<Rightarrow>
          (case def_lib ddef of
             None \<Rightarrow> st
           | Some lib \<Rightarrow>
               if truthy (lib_include lib)
               then st\<lparr>include_set := insert (the (lib_include lib)) (include_set st)\<rparr>
               else st))"

subsection \<open>Recording source map entries\<close>

definition record_map ::
  "emitter \<Rightarrow> ident \<Rightarrow> int \<Rightarrow> int \<Rightarrow> string option \<Rightarrow> string option \<Rightarrow> emitter" where
  "record_map st node_id start_l end_l function port =
     st\<lparr>mapping_entries := mapping_entries st @
          [\<lparr>me_node_id = node_id, me_function = function, start_line = Some start_l,
            end_line = Some end_l, start_col = None, end_col = None, me_port = port\<rparr>]\<rparr>"

text \<open>A fragment is its text and an optional marker \<open>(node_id, port)\<close>.\<close>

type_synonym fragment = "string \<times> (ident \<times> string option) option"

fun frag_entries :: "int \<Rightarrow> string option \<Rightarrow> int \<Rightarrow> fragment list \<Rightarrow> mapping_entry list" where
  "frag_entries line_no function offset [] = []"
| "frag_entries line_no function offset ((text, mk) # frags) =
     (case mk of
        None \<Rightarrow> []
      | Some (node_id, port) \<Rightarrow>
          [\<lparr>me_node_id = node_id, me_function = function, start_line = Some line_no,
            end_line = Some line_no, start_col = Some (offset + 1),
            end_col = Some (offset + int (length text)), me_port = port\<rparr>])
     @ frag_entries line_no function (offset + int (length text)) frags"

definition emit_line_with_fragments ::
  "emitter \<Rightarrow> fragment list \<Rightarrow> string option \<Rightarrow> int \<times> emitter" where
  "emit_line_with_fragments st fragments function =
     (let line_text = concat (map fst fragments);
          st1 = st\<lparr>code_lines := code_lines st @ [line_text]\<rparr>;
          line_no = int (length (code_lines st1))
      in (line_no,
          st1\<lparr>mapping_entries := mapping_entries st1 @ frag_entries line_no function 0 fragments\<rparr>))"

subsection \<open>Resolving the source of an input\<close>

definition lookup_port ::
  "(ident \<Rightarrow> (string \<Rightarrow> ident option) option) \<Rightarrow> ident \<Rightarrow> string option \<Rightarrow> ident option" where
  "lookup_port m i pname =
     (if truthy pname then (case m i of None \<Rightarrow> None | Some d \<Rightarrow> d (the pname))
      else None)"

definition lookup_pos :: "(ident \<Rightarrow> ident list option) \<Rightarrow> ident \<Rightarrow> nat \<Rightarrow> ident option" where
  "lookup_pos m i index =
     (case m i of None \<Rightarrow> None | Some l \<Rightarrow> if index < length l then Some (l ! index) else None)"

text \<open>\<open>_resolve_input_for_node\<close>: the function-local maps first (absent at top level),
  then the emitter's own, by port name; then the positional lists; then the node's own
  \<open>inputs\<close> list, which is consulted only when no port name was given.\<close>

definition resolve_input_for_node ::
  "emitter \<Rightarrow> node \<Rightarrow> string option \<Rightarrow> nat option \<Rightarrow>
   (ident \<Rightarrow> (string \<Rightarrow> ident option) option) option \<Rightarrow> (ident \<Rightarrow> ident list option) option \<Rightarrow>
   ident option" where
  "resolve_input_for_node st n pname index lmap llist =
     (case (case lmap of None \<Rightarrow> None | Some m \<Rightarrow> lookup_port m (nid n) pname) of
        Some r \<Rightarrow> Some r
      | None \<Rightarrow>
     (case lookup_port (incoming_by_node st) (nid n) pname of
        Some r \<Rightarrow> Some r
      | None \<Rightarrow>
     (case (case index of
              None \<Rightarrow> None
            | Some i \<Rightarrow>
                (case (case llist of None \<Rightarrow> None | Some l \<Rightarrow> lookup_pos l (nid n) i) of
                   Some r \<Rightarrow> Some r
                 | None \<Rightarrow> lookup_pos (incoming_list_by_node st) (nid n) i)) of
        Some r \<Rightarrow> Some r
      | None \<Rightarrow>
     (case index of
        None \<Rightarrow> None
      | Some i \<Rightarrow>
          if pname = None \<and> i < length (inputs n) then Some (inputs n ! i) else None))))"

subsection \<open>Arithmetic nodes\<close>

text \<open>\<open>names.get(src, src if src else '0')\<close>.\<close>

definition operand_text :: "(ident \<Rightarrow> string option) \<Rightarrow> ident option \<Rightarrow> string" where
  "operand_text names src =
     (case src of
        None \<Rightarrow> ''0''
      | Some s \<Rightarrow> (case names s of Some v \<Rightarrow> v | None \<Rightarrow> if s \<noteq> [] then s else ''0''))"

definition is_arith :: "string \<Rightarrow> bool" where
  "is_arith t \<longleftrightarrow> t = ''Add'' \<or> t = ''Sub'' \<or> t = ''Mul'' \<or> t = ''Div''"

text \<open>The operator table; the branch is entered for the four arithmetic types only.\<close>

definition op_symbol :: "string \<Rightarrow> string" where
  "op_symbol t =
     (if t = ''Add'' then ''+'' else if t = ''Sub'' then ''-''
      else if t = ''Mul'' then ''*'' else ''/'')"

text \<open>The sources of the two operands and the port names: by the first two declared
  port names when the catalog declares at least two inputs, else (or when that finds
  nothing) by position.\<close>

definition arith_sources ::
  "emitter \<Rightarrow> node \<Rightarrow> (ident \<Rightarrow> (string \<Rightarrow> ident option) option) option \<Rightarrow>
   (ident \<Rightarrow> ident list option) option \<Rightarrow>
   ident option \<times> ident option \<times> string option \<times> string option" where
  "arith_sources st n lmap llist =
     (let input_ports = inputs_of_type (node_defs st) (ntype n);
          named = (case input_ports of
                     p0 # p1 # rest \<Rightarrow>
                       (resolve_input_for_node st n (port_name p0) (Some 0) lmap llist,
                        resolve_input_for_node st n (port_name p1) (Some 1) lmap llist,
                        port_name p0, port_name p1)
                   | _ \<Rightarrow> (None, None, None, None));
          a0 = fst named; b0 = fst (snd named);
          a_port = fst (snd (snd named)); b_port = snd (snd (snd named));
          a_src = (if a0 = None then resolve_input_for_node st n None (Some 0) lmap llist else a0);
          b_src = (if b0 = None then resolve_input_for_node st n None (Some 1) lmap llist else b0)
      in (a_src, b_src, a_port, b_port))"

text \<open>\<open>a_port or 'a'\<close>.\<close>

definition port_or :: "string option \<Rightarrow> string \<Rightarrow> string" where
  "port_or p d = (if truthy p then the p else d)"

definition arith_fragments ::
  "string \<Rightarrow> string \<Rightarrow> string \<Rightarrow> string \<Rightarrow> string \<Rightarrow> ident \<Rightarrow> string option \<Rightarrow>
   string option \<Rightarrow> fragment list" where
  "arith_fragments ind var a op b i a_port b_port =
     [(ind @ ''double '' @ var @ '' = '', None),
      (a, Some (i, Some (port_or a_port ''a''))),
      ('' '' @ op @ '' '', None),
      (b, Some (i, Some (port_or b_port ''b''))),
      ('';'', None)]"

text \<open>The body of the loop of \<open>emit_from_graph\<close> for an arithmetic node.\<close>

definition emit_arith_top :: "emitter \<Rightarrow> node \<Rightarrow> emitter" where
  "emit_arith_top st0 n =
     (let st1 = ensure_lib_includes st0 (ntype n);
          start = int (length (code_lines st1)) + 1;
          srcs = arith_sources st1 n None None;
          a = operand_text (var_names st1) (fst srcs);
          b = operand_text (var_names st1) (fst (snd srcs));
          mv = make_var st1 (nid n);
          var = fst mv;
          st2 = (snd mv)\<lparr>var_names := (var_names (snd mv))(nid n \<mapsto> var)\<rparr>;
          st3 = snd (emit_line_with_fragments st2
                  (arith_fragments (indent st2) var a (op_symbol (ntype n)) b (nid n)
                     (fst (snd (snd srcs))) (snd (snd (snd srcs)))) None)
      in record_map st3 (nid n) start (int (length (code_lines st3))) None None)"

text \<open>The body of the loop of \<open>emit_function_def\<close> for an arithmetic node.\<close>

definition emit_arith_fn :: "emitter \<times> local_scope \<Rightarrow> node \<Rightarrow> emitter \<times> local_scope" where
  "emit_arith_fn ss n =
     (let st = fst ss; sc = snd ss;
          start = int (length (code_lines st)) + 1;
          srcs = arith_sources st n (Some (local_incoming_map sc)) (Some (local_incoming_list sc));
          a = operand_text (local_var_names sc) (fst srcs);
          b = operand_text (local_var_names sc) (fst (snd srcs));
          mv = local_make_var sc (nid n);
          var = fst mv;
          sc2 = (snd mv)\<lparr>local_var_names := (local_var_names (snd mv))(nid n \<mapsto> var)\<rparr>;
          st3 = snd (emit_line_with_fragments st
                  (arith_fragments (indent st) var a (op_symbol (ntype n)) b (nid n)
                     (fst (snd (snd srcs))) (snd (snd (snd srcs)))) (fn_name sc))
      in (record_map st3 (nid n) start (int (length (code_lines st3))) (fn_name sc) None, sc2))"

subsection \<open>Literal nodes\<close>

text \<open>The chain of \<open>isinstance\<close> tests of a \<open>Literal\<close>: text first, then \<open>int\<close> or \<open>float\<close>.
  A Python \<open>bool\<close> is an instance of \<open>int\<close>.\<close>

fun literal_ctype :: "pyval \<Rightarrow> string" where
  "literal_ctype (PStr s) = ''std::string''"
| "literal_ctype (PBool b) = ''double''"
| "literal_ctype (PInt i) = ''double''"
| "literal_ctype (PFloat r) = ''double''"
| "literal_ctype v = ''auto''"

fun literal_text :: "pyval \<Rightarrow> string" where
  "literal_text (PStr s) = [char_of (34::nat)] @ escape_string s @ [char_of (34::nat)]"
| "literal_text v = py_str v"

definition literal_includes :: "pyval \<Rightarrow> string set \<Rightarrow> string set" where
  "literal_includes v incs = (case v of PStr s \<Rightarrow> insert ''<string>'' incs | _ \<Rightarrow> incs)"

definition literal_fragments :: "string \<Rightarrow> string \<Rightarrow> string \<Rightarrow> string \<Rightarrow> ident \<Rightarrow> fragment list" where
  "literal_fragments ind ctype var lit i =
     [(ind @ ctype @ '' '' @ var @ '' = '', None), (lit, Some (i, Some ''out'')), ('';'', None)]"

text \<open>The body of the loop of \<open>emit_function_def\<close> for a \<open>Literal\<close>.\<close>

definition emit_literal_fn :: "emitter \<times> local_scope \<Rightarrow> node \<Rightarrow> emitter \<times> local_scope" where
  "emit_literal_fn ss n =
     (let st = fst ss; sc = snd ss;
          start = int (length (code_lines st)) + 1;
          val = nvalue n;
          st1 = st\<lparr>include_set := literal_includes val (include_set st)\<rparr>;
          mv = local_make_var sc (nid n);
          var = fst mv;
          sc2 = (snd mv)\<lparr>local_var_names := (local_var_names (snd mv))(nid n \<mapsto> var)\<rparr>;
          st3 = snd (emit_line_with_fragments st1
                  (literal_fragments (indent st1) (literal_ctype val) var (literal_text val) (nid n))
                  (fn_name sc))
      in (record_map st3 (nid n) start (int (length (code_lines st3))) (fn_name sc) None, sc2))"

text \<open>The body of the loop of \<open>emit_from_graph\<close> for a \<open>Literal\<close>. The fragments are built
  as in the function scope, but the call passes \<open>function=name\<close>, and \<open>emit_from_graph\<close>
  binds no variable \<open>name\<close> (nor does the module): evaluating the argument raises
  \<open>NameError\<close> before the line is appended.\<close>

definition emit_literal_top :: "emitter \<Rightarrow> node \<Rightarrow> error + emitter" where
  "emit_literal_top st0 n =
     (let st1 = ensure_lib_includes st0 (ntype n);
          val = nvalue n;
          st2 = st1\<lparr>include_set := literal_includes val (include_set st1)\<rparr>;
          mv = make_var st2 (nid n);
          var = fst mv;
          st3 = (snd mv)\<lparr>var_names := (var_names (snd mv))(nid n \<mapsto> var)\<rparr>;
          fragments = literal_fragments (indent st3) (literal_ctype val) var (literal_text val) (nid n)
      in Inl (NameError ''name''))"

subsection \<open>The top-level loop\<close>

text \<open>The nodes that \<open>emit_from_graph\<close> sorts: \<open>list(nodes_map.values())\<close> for
  \<open>nodes_map = {n['id']: n for n in nodes}\<close>, one node for each id in the order in which the
  ids first occur, and for an id that occurs more than once the last node that has it.\<close>

definition nodes_list :: "node list \<Rightarrow> node list" where
  "nodes_list nodes =
     concat (map (\<lambda>k. case id_to_node nodes k of None \<Rightarrow> [] | Some n \<Rightarrow> [n])
                 (dict_keys (map nid nodes)))"

text \<open>\<open>except ValidationError\<close> catches the errors that the validator raises itself;
  \<open>NameError\<close> and \<open>KeyError\<close> are Python's own and pass through.\<close>

fun is_validation_error :: "error \<Rightarrow> bool" where
  "is_validation_error (NameError s) = False"
| "is_validation_error (KeyError k) = False"
| "is_validation_error e = True"

text \<open>The loop \<open>for n in ordered\<close>. The branches are tried in the order of the source,
  \<open>Literal\<close> first, then the four arithmetic types; an exception raised in a branch ends
  the loop. The branches that follow (\<open>Print\<close>, \<open>Cast\<close>, \<open>Call\<close>, and the last one for the
  nodes of a library and the unhandled ones) are not modelled one by one: the argument
  \<open>other\<close> stands for them, taking the state and the node to the state after the node or
  to the error raised.\<close>

fun emit_nodes ::
  "(emitter \<Rightarrow> node \<Rightarrow> error + emitter) \<Rightarrow> emitter \<Rightarrow> node list \<Rightarrow> error + emitter" where
  "emit_nodes other st [] = Inr st"
| "emit_nodes other st (n # ns) =
     (case (if ntype n = ''Literal'' then emit_literal_top st n
            else if is_arith (ntype n) then Inr (emit_arith_top st n)
            else other st n) of
        Inl e \<Rightarrow> Inl e
      | Inr st' \<Rightarrow> emit_nodes other st' ns)"

text \<open>\<open>emit_from_graph\<close>: the nodes are sorted with the edges of the IR; when the sort raises
  a \<open>ValidationError\<close> a warning comment is appended and the nodes are taken in the order
  of the graph.\<close>

definition emit_from_graph ::
  "(emitter \<Rightarrow> node \<Rightarrow> error + emitter) \<Rightarrow> emitter \<Rightarrow> node list \<Rightarrow> edge list \<Rightarrow>
   error + emitter" where
  "emit_from_graph other st nodes edges =
     (case topological_sort (nodes_list nodes) edges of
        Inr ordered \<Rightarrow> emit_nodes other st ordered
      | Inl e \<Rightarrow>
          if is_validation_error e
          then emit_nodes other
                 (st\<lparr>code_lines := code_lines st @
                        [indent st @ ''// Warning: topological sort failed, using graph order'']\<rparr>)
                 (nodes_list nodes)
          else Inl e)"

subsection \<open>Shapes used in the statements about the emitter\<close>

text \<open>The text of the line of an arithmetic node.\<close>

definition arith_line :: "string \<Rightarrow> string \<Rightarrow> string \<Rightarrow> string \<Rightarrow> string \<Rightarrow> string" where
  "arith_line ind var a op b =
     ind @ ''double '' @ var @ '' = '' @ a @ '' '' @ op @ '' '' @ b @ '';''"

text \<open>The text of the line of a literal.\<close>

definition literal_line :: "string \<Rightarrow> string \<Rightarrow> string \<Rightarrow> string \<Rightarrow> string" where
  "literal_line ind ctype var lit = ind @ ctype @ '' '' @ var @ '' = '' @ lit @ '';''"

text \<open>A table has two entries of node \<open>i\<close> on one start line, with column ranges that are
  distinct and disjoint, the first ending before the second starts.\<close>

definition two_disjoint_spans :: "ident \<Rightarrow> mapping_entry list \<Rightarrow> bool" where
  "two_disjoint_spans i tab \<longleftrightarrow>
     (\<exists>x\<in>set tab. \<exists>y\<in>set tab. \<exists>l sa ea sb eb.
        me_node_id x = i \<and> me_node_id y = i
        \<and> start_line x = Some l \<and> start_line y = Some l
        \<and> start_col x = Some sa \<and> end_col x = Some ea
        \<and> start_col y = Some sb \<and> end_col y = Some eb
        \<and> (sa, ea) \<noteq> (sb, eb) \<and> ea < sb)"

text \<open>The name of the \<open>k\<close>-th declared input port of the node's type, when the catalog
  declares at least two inputs (the emitter looks at the first two only).\<close>

definition declared_port :: "emitter \<Rightarrow> node \<Rightarrow> nat \<Rightarrow> string option" where
  "declared_port st n k =
     (case inputs_of_type (node_defs st) (ntype n) of
        p0 # p1 # rest \<Rightarrow> port_name ([p0, p1] ! k)
      | _ \<Rightarrow> None)"

text \<open>Operand \<open>k\<close> has no source: no edge names its port, no positional edge has index
  \<open>k\<close>, and the node's own \<open>inputs\<close> list has no index \<open>k\<close>.\<close>

definition unresolved ::
  "emitter \<Rightarrow> node \<Rightarrow> (ident \<Rightarrow> (string \<Rightarrow> ident option) option) option \<Rightarrow>
   (ident \<Rightarrow> ident list option) option \<Rightarrow> nat \<Rightarrow> bool" where
  "unresolved st n lmap llist k \<longleftrightarrow>
     (case lmap of None \<Rightarrow> True | Some m \<Rightarrow> lookup_port m (nid n) (declared_port st n k) = None)
     \<and> lookup_port (incoming_by_node st) (nid n) (declared_port st n k) = None
     \<and> (case llist of None \<Rightarrow> True | Some l \<Rightarrow> lookup_pos l (nid n) k = None)
     \<and> lookup_pos (incoming_list_by_node st) (nid n) k = None
     \<and> length (inputs n) \<le> k"

section \<open>IR normalization (emit-and-compile script, function normalize-ir)\<close>

text \<open>The IR document: its imports, its top-level nodes and its edge list. A missing or
  empty \<open>edges\<close> key is the empty list (\<open>ir.get('edges', []) or []\<close>).\<close>

record ir =
  ir_imports :: "string list"
  ir_nodes :: "node list"
  ir_edges :: "edge list"

text \<open>\<open>if x not in xs: xs.append(x)\<close>.\<close>

definition add_unique :: "'a \<Rightarrow> 'a list \<Rightarrow> 'a list" where
  "add_unique x xs = (if x \<in> set xs then xs else xs @ [x])"

text \<open>The loop over the edges when \<open>edges\<close> is given: an edge with an unknown end is
  skipped; the others add their source to the inputs of the destination and their
  destination to the outputs of the source. The two dictionaries start with the empty
  list for every node id and are read with the default \<open>[]\<close>.\<close>

fun link_edges ::
  "ident set \<Rightarrow> edge list \<Rightarrow> (ident \<Rightarrow> ident list) \<times> (ident \<Rightarrow> ident list) \<Rightarrow>
   (ident \<Rightarrow> ident list) \<times> (ident \<Rightarrow> ident list)" where
  "link_edges node_ids [] acc = acc"
| "link_edges node_ids (e # es) acc =
     (if efrom e \<notin> node_ids \<or> eto e \<notin> node_ids then link_edges node_ids es acc
      else link_edges node_ids es
             ((fst acc)(eto e := add_unique (efrom e) (fst acc (eto e))),
              (snd acc)(efrom e := add_unique (eto e) (snd acc (efrom e)))))"

text \<open>Without edges: one edge per known input of every node, in order.\<close>

definition synth_edges :: "ident set \<Rightarrow> node list \<Rightarrow> edge list" where
  "synth_edges node_ids nodes =
     concat (map (\<lambda>n. map (\<lambda>inp. \<lparr>efrom = inp, eto = nid n, fromPort = None, toPort = None\<rparr>)
                        (filter (\<lambda>inp. inp \<in> node_ids) (inputs n))) nodes)"

text \<open>The de-duplication loop with its set \<open>seen\<close> of keys \<open>(from, to)\<close>.\<close>

fun dedup_edges :: "(ident \<times> ident) list \<Rightarrow> edge list \<Rightarrow> edge list" where
  "dedup_edges seen [] = []"
| "dedup_edges seen (e # es) =
     (if (efrom e, eto e) \<in> set seen then dedup_edges seen es
      else e # dedup_edges ((efrom e, eto e) # seen) es)"

text \<open>The loop that fills the outputs from the synthesized edges.\<close>

fun collect_outputs :: "edge list \<Rightarrow> (ident \<Rightarrow> ident list) \<Rightarrow> (ident \<Rightarrow> ident list)" where
  "collect_outputs [] om = om"
| "collect_outputs (e # es) om =
     collect_outputs es (om(efrom e := add_unique (eto e) (om (efrom e))))"

definition normalize_ir :: "ir \<Rightarrow> ir" where
  "normalize_ir doc =
     (let nodes = ir_nodes doc;
          node_ids = set (map nid nodes);
          edges = ir_edges doc
      in if edges \<noteq> [] then
           (let maps = link_edges node_ids edges (\<lambda>i. [], \<lambda>i. [])
            in doc\<lparr>ir_nodes :=
                     map (\<lambda>n. n\<lparr>inputs := fst maps (nid n), outputs := snd maps (nid n)\<rparr>) nodes\<rparr>)
         else
           (let uniq = dedup_edges [] (synth_edges node_ids nodes);
                outputs_map = collect_outputs uniq (\<lambda>i. [])
            in doc\<lparr>ir_edges := uniq,
                   ir_nodes := map (\<lambda>n. n\<lparr>outputs := outputs_map (nid n)\<rparr>) nodes\<rparr>))"

text \<open>The ids of the nodes of a document, and what a caller can observe of a normalized
  document: its edge list and, per node, the id, the inputs and the outputs.\<close>

definition ids_of :: "ir \<Rightarrow> ident set" where
  "ids_of doc = set (map nid (ir_nodes doc))"

definition known_edge :: "ir \<Rightarrow> edge \<Rightarrow> bool" where
  "known_edge doc e \<longleftrightarrow> efrom e \<in> ids_of doc \<and> eto e \<in> ids_of doc"

text \<open>Every node's inputs are duplicate-free and name nodes of the document, and the node
  ids are pairwise distinct.\<close>

definition clean_inputs :: "ir \<Rightarrow> bool" where
  "clean_inputs doc \<longleftrightarrow>
     distinct (map nid (ir_nodes doc))
     \<and> list_all (\<lambda>n. distinct (inputs n) \<and> list_all (\<lambda>i. i \<in> ids_of doc) (inputs n))
          (ir_nodes doc)"

section \<open>Concrete inputs\<close>

text \<open>Modelled from the spec: the catalog file \<open>node_defs.json\<close> is not among the sources.
  This sample catalog has the ports that the tests and the scenarios name: \<open>Add\<close> with
  the two \<open>number\<close> inputs \<open>a\<close> and \<open>b\<close>, \<open>Literal\<close> with one output of any type.\<close>

definition sample_defs :: node_defs where
  "sample_defs = map_of
     [(''Literal'', \<lparr>def_inputs = [],
                     def_outputs = [\<lparr>port_name = Some ''out'', port_type = Some ''any''\<rparr>],
                     def_lib = None\<rparr>),
      (''Add'', \<lparr>def_inputs = [\<lparr>port_name = Some ''a'', port_type = Some ''number''\<rparr>,
                                  \<lparr>port_name = Some ''b'', port_type = Some ''number''\<rparr>],
                 def_outputs = [\<lparr>port_name = Some ''out'', port_type = Some ''number''\<rparr>],
                 def_lib = None\<rparr>)]"

definition mk_node :: "ident \<Rightarrow> string \<Rightarrow> pyval \<Rightarrow> ident list \<Rightarrow> node" where
  "mk_node i t v ins = \<lparr>nid = i, ntype = t, nvalue = v, inputs = ins, outputs = []\<rparr>"

definition mk_edge :: "ident \<Rightarrow> ident \<Rightarrow> string option \<Rightarrow> edge" where
  "mk_edge f t p = \<lparr>efrom = f, eto = t, fromPort = None, toPort = p\<rparr>"

text \<open>Scenario 3 of the specification: a text literal wired to port \<open>a\<close> of an \<open>Add\<close>.\<close>

definition mismatch_nodes :: "node list" where
  "mismatch_nodes =
     [mk_node ''S'' ''Literal'' (PStr ''1'') [], mk_node ''N'' ''Literal'' (PInt 2) [],
      mk_node ''A'' ''Add'' PNone []]"

definition mismatch_edges :: "edge list" where
  "mismatch_edges = [mk_edge ''S'' ''A'' (Some ''a''), mk_edge ''N'' ''A'' (Some ''b'')]"

text \<open>A catalog with a type of its own, spelled \<open>foo\<close> on the output of \<open>Source\<close> and
  \<open>Foo\<close> on the input of \<open>Sink\<close>, and a graph that wires the one to the other.\<close>

definition case_defs :: node_defs where
  "case_defs = map_of
     [(''Source'', \<lparr>def_inputs = [],
                    def_outputs = [\<lparr>port_name = Some ''out'', port_type = Some ''foo''\<rparr>],
                    def_lib = None\<rparr>),
      (''Sink'', \<lparr>def_inputs = [\<lparr>port_name = Some ''in'', port_type = Some ''Foo''\<rparr>],
                  def_outputs = [],
                  def_lib = None\<rparr>)]"

definition case_nodes :: "node list" where
  "case_nodes = [mk_node ''s'' ''Source'' PNone [], mk_node ''t'' ''Sink'' PNone []]"

definition case_edges :: "edge list" where
  "case_edges = [mk_edge ''s'' ''t'' (Some ''in'')]"

text \<open>Three positional edges into an \<open>Add\<close>, whose declared arity is two.\<close>

definition arity_nodes :: "node list" where
  "arity_nodes =
     [mk_node ''x'' ''Literal'' (PInt 1) [], mk_node ''y'' ''Literal'' (PInt 2) [],
      mk_node ''z'' ''Literal'' (PInt 3) [], mk_node ''s'' ''Add'' PNone []]"

definition arity_edges :: "edge list" where
  "arity_edges = [mk_edge ''x'' ''s'' None, mk_edge ''y'' ''s'' None, mk_edge ''z'' ''s'' None]"

text \<open>The three entries that the emitter records for \<open>double v_add1 = v_l1 + v_l1;\<close>
  on line 2: the two operands and the whole statement.\<close>

definition mk_entry :: "ident \<Rightarrow> string option \<Rightarrow> int \<Rightarrow> int \<Rightarrow> int \<Rightarrow> mapping_entry" where
  "mk_entry i p l sc ec =
     \<lparr>me_node_id = i, me_function = None, start_line = Some l, end_line = Some l,
      start_col = Some sc, end_col = Some ec, me_port = p\<rparr>"

definition add_table :: "mapping_entry list" where
  "add_table =
     [mk_entry ''add1'' (Some ''a'') 2 21 24, mk_entry ''add1'' (Some ''b'') 2 28 31,
      mk_entry ''add1'' None 2 5 32]"

definition diag_at :: "int \<Rightarrow> int option \<Rightarrow> diagnostic" where
  "diag_at l c = \<lparr>d_file = ''out.cpp'', d_line = l, d_col = c, d_kind = ''error'', d_msg = []\<rparr>"

text \<open>The emitter at the start of the top-level loop of an IR without imports, edges or
  functions and with an empty catalog: the include line, the blank line and the header
  of \<open>main\<close> are written and the indentation is one level.\<close>

definition main_state :: emitter where
  "main_state =
     (init_emitter [] [] (\<lambda>t. None))
       \<lparr>include_set := {''<iostream>''},
        code_lines := [''#include <iostream>'', [], ''int main() {''],
        indent_level := 1\<rparr>"

text \<open>Scenario 2 of the specification at the point where the \<open>Add\<close> node is emitted: the
  literal \<open>l1\<close> is bound to the variable \<open>v_l1\<close> and both inputs of \<open>add1\<close> are \<open>l1\<close>.\<close>

definition dup_state :: emitter where
  "dup_state =
     (init_emitter [] [] (\<lambda>t. None))
       \<lparr>code_lines := [''int main() {''], indent_level := 1,
        var_names := [''l1'' \<mapsto> ''v_l1''], used_names := [''v_l1'' \<mapsto> 1]\<rparr>"

definition dup_add :: node where
  "dup_add = mk_node ''add1'' ''Add'' PNone [''l1'', ''l1'']"

text \<open>Three nodes whose ids are pairwise distinct.\<close>

definition clash_nodes :: "node list" where
  "clash_nodes =
     [mk_node ''a.b'' ''Add'' PNone [], mk_node ''a_b'' ''Add'' PNone [],
      mk_node ''a_b_1'' ''Add'' PNone []]"

text \<open>A function body with one boolean literal.\<close>

definition flag_node :: node where
  "flag_node = mk_node ''flag'' ''Literal'' (PBool True) []"

definition fn_state :: "emitter \<times> local_scope" where
  "fn_state =
     ((init_emitter [] [] (\<lambda>t. None))
        \<lparr>code_lines := [''#include <iostream>'', [], ''bool f() {''], indent_level := 1\<rparr>,
      init_scope (Some ''f'') [])"

text \<open>The IR of the duplicate-operand tests (without the properties of the literal that
  normalization does not read): no edges, and \<open>add1\<close> lists \<open>l1\<close> twice.\<close>

definition dup_ir :: ir where
  "dup_ir = \<lparr>ir_imports = [],
            ir_nodes = [mk_node ''l1'' ''Literal'' (PInt 7) [],
                        mk_node ''add1'' ''Add'' PNone [''l1'', ''l1'']],
            ir_edges = []\<rparr>"

text \<open>An IR whose only edge leads to a node that does not exist.\<close>

definition dangling_ir :: ir where
  "dangling_ir = \<lparr>ir_imports = [],
                 ir_nodes = [mk_node ''A'' ''Literal'' (PInt 1) []],
                 ir_edges = [mk_edge ''A'' ''Z'' None]\<rparr>"

text \<open>Scenario 1 of the specification, with its inputs lists and no edges.\<close>

definition sum_ir :: ir where
  "sum_ir = \<lparr>ir_imports = [],
            ir_nodes = [mk_node ''L3'' ''Literal'' (PInt 3) [],
                        mk_node ''L4'' ''Literal'' (PInt 4) [],
                        mk_node ''A'' ''Add'' PNone [''L3'', ''L4'']],
            ir_edges = []\<rparr>"

text \<open>Scenario 6 of the specification: two nodes and the edges \<open>X \<rightarrow> Y\<close>, \<open>Y \<rightarrow> X\<close>.\<close>

definition cycle_nodes :: "node list" where
  "cycle_nodes = [mk_node ''X'' ''Add'' PNone [], mk_node ''Y'' ''Add'' PNone []]"

definition cycle_edges :: "edge list" where
  "cycle_edges = [mk_edge ''X'' ''Y'' None, mk_edge ''Y'' ''X'' None]"

text \<open>Two nodes with the same id and no edges.\<close>

definition twin_nodes :: "node list" where
  "twin_nodes = [mk_node ''A'' ''Literal'' (PInt 1) [], mk_node ''A'' ''Literal'' (PInt 1) []]"

section \<open>Theorems\<close>

subsection \<open>The type lattice\<close>

lemma is_compatible_assignable:
  "is_compatible e a \<longleftrightarrow> assignable (canonical_type e) (canonical_type a)"
  by (auto simp: is_compatible_def assignable_def Let_def)

lemma lower_char_simps:
  "lower_char c = (if 65 \<le> (of_char c :: nat) \<and> (of_char c :: nat) \<le> 90
                   then char_of ((of_char c :: nat) + 32) else c)"
  by (simp add: lower_char_def Let_def)

lemma canonical_number: "canonical_type (Some ''number'') = ''double''"
  by (simp add: canonical_type_def lower_def lower_char_simps)

lemma canonical_double: "canonical_type (Some ''double'') = ''double''"
  by (simp add: canonical_type_def lower_def lower_char_simps)

lemma canonical_int: "canonical_type (Some ''int'') = ''int''"
  by (simp add: canonical_type_def lower_def lower_char_simps)

lemma canonical_string: "canonical_type (Some ''string'') = ''string''"
  by (simp add: canonical_type_def lower_def lower_char_simps)

lemma canonical_any: "canonical_type (Some ''any'') = ''any''"
  by (simp add: canonical_type_def lower_def lower_char_simps)

lemma compatible_any_left: "is_compatible (Some ''any'') a"
  by (simp add: is_compatible_def canonical_any)

text \<open>The canonical type of the source is the canonical name of the specification, taken
  of the name in lower case.\<close>

lemma canonical_type_lowered:
  "canonical_type t = spec_canonical (lowered_name t)"
proof (cases t)
  case None
  then show ?thesis by (simp add: canonical_type_def lowered_name_def spec_canonical_def)
next
  case (Some s)
  show ?thesis
  proof (cases "s = []")
    case True
    then show ?thesis using Some
      by (simp add: canonical_type_def lowered_name_def spec_canonical_def)
  next
    case False
    then show ?thesis using Some
      by (simp add: canonical_type_def lowered_name_def spec_canonical_def Let_def)
  qed
qed

lemma is_compatible_lowered:
  "is_compatible e a \<longleftrightarrow> assignable_lowered e a"
  by (simp add: is_compatible_assignable assignable_lowered_def spec_assignable_def
      canonical_type_lowered)

subsection \<open>Type mismatches\<close>

text \<open>Seen from the whole of \<open>validate_types\<close>: a type mismatch that is raised belongs to
  one of the connections, whose types are not compatible, and suggests the expected type.\<close>

lemma check_connection_mismatch:
  assumes "check_connection nodes defs tab dest dest_inputs idx c = Inl (TypeMismatch d)"
  shows "\<not> is_compatible (mm_expected d) (mm_actual d) \<and> mm_suggested_cast d = mm_expected d
         \<and> mm_from d = efrom c \<and> mm_to d = eto c \<and> mm_toPort d = toPort c"
  using assms
  by (auto simp: check_connection_def compare_types_def expected_type_def actual_type_def
      Let_def split: sum.splits option.splits if_splits list.splits)

lemma check_incoming_mismatch:
  "check_incoming nodes defs tab dest dest_inputs idx cs = Inl (TypeMismatch d) \<Longrightarrow>
   \<exists>c\<in>set cs. \<not> is_compatible (mm_expected d) (mm_actual d)
      \<and> mm_suggested_cast d = mm_expected d
      \<and> mm_from d = efrom c \<and> mm_to d = eto c \<and> mm_toPort d = toPort c"
proof (induction cs arbitrary: idx)
  case Nil
  then show ?case by simp
next
  case (Cons c cs)
  show ?case
  proof (cases "check_connection nodes defs tab dest dest_inputs idx c")
    case (Inl e)
    then have "e = TypeMismatch d" using Cons.prems by simp
    then show ?thesis using check_connection_mismatch Inl by fastforce
  next
    case (Inr u)
    then have "check_incoming nodes defs tab dest dest_inputs (Suc idx) cs = Inl (TypeMismatch d)"
      using Cons.prems by simp
    then show ?thesis using Cons.IH by fastforce
  qed
qed

lemma group_by_dest_members:
  "(k, cs) \<in> set (group_by_dest conns acc) \<Longrightarrow> c \<in> set cs \<Longrightarrow>
   c \<in> set conns \<or> (\<exists>k' cs'. (k', cs') \<in> set acc \<and> c \<in> set cs')"
proof (induction conns arbitrary: acc)
  case Nil
  then show ?case by auto
next
  case (Cons x xs)
  let ?acc = "case map_of acc (eto x) of None \<Rightarrow> acc @ [(eto x, [x])]
              | Some old \<Rightarrow> AList.update (eto x) (old @ [x]) acc"
  from Cons.prems have "(k, cs) \<in> set (group_by_dest xs ?acc)" by simp
  from Cons.IH [OF this Cons.prems(2)]
  have "c \<in> set xs \<or> (\<exists>k' cs'. (k', cs') \<in> set ?acc \<and> c \<in> set cs')" .
  then show ?case
  proof
    assume "c \<in> set xs"
    then show ?thesis by simp
  next
    assume "\<exists>k' cs'. (k', cs') \<in> set ?acc \<and> c \<in> set cs'"
    then obtain k' cs' where m: "(k', cs') \<in> set ?acc" "c \<in> set cs'" by blast
    show ?thesis
    proof (cases "map_of acc (eto x)")
      case None
      then show ?thesis using m by auto
    next
      case (Some old)
      then have "(k', cs') \<in> set (AList.update (eto x) (old @ [x]) acc)" using m by simp
      then have "(k', cs') \<in> set acc \<or> (k' = eto x \<and> cs' = old @ [x])"
        by (induction acc) (auto split: if_splits)
      moreover have "(eto x, old) \<in> set acc" using Some by (rule map_of_SomeD)
      ultimately show ?thesis using m(2) by auto
    qed
  qed
qed

lemma check_dests_mismatch:
  "check_dests nodes defs tab groups = Inl (TypeMismatch d) \<Longrightarrow>
   \<exists>k cs. (k, cs) \<in> set groups \<and> (\<exists>c\<in>set cs. \<not> is_compatible (mm_expected d) (mm_actual d)
      \<and> mm_suggested_cast d = mm_expected d
      \<and> mm_from d = efrom c \<and> mm_to d = eto c \<and> mm_toPort d = toPort c)"
proof (induction groups)
  case Nil
  then show ?case by simp
next
  case (Cons g groups)
  obtain dest incoming where g: "g = (dest, incoming)" by (cases g)
  show ?case
  proof (cases "id_to_node nodes dest")
    case None
    then show ?thesis using Cons.prems g by simp
  next
    case (Some dn)
    show ?thesis
    proof (cases "check_incoming nodes defs tab dest (inputs_of_type defs (ntype dn)) 0 incoming")
      case (Inl e)
      then have "e = TypeMismatch d" using Cons.prems g Some by simp
      then show ?thesis using check_incoming_mismatch Inl g by fastforce
    next
      case (Inr u)
      then have "check_dests nodes defs tab groups = Inl (TypeMismatch d)"
        using Cons.prems g Some by simp
      then show ?thesis using Cons.IH by fastforce
    qed
  qed
qed

lemma literal_types_error:
  "literal_types defs ns tab = Inl e \<Longrightarrow> \<exists>i t. e = UnknownNodeType i t"
  by (induction ns arbitrary: tab) (auto split: option.splits if_splits)

lemma check_endpoints_error:
  "check_endpoints nodes cs = Inl e \<Longrightarrow> \<exists>a b. e = UnknownEndpoint a b"
  by (induction cs) (auto split: if_splits)

lemma validate_types_mismatch:
  assumes "validate_types nodes defs edges = Inl (TypeMismatch d)"
  shows "\<exists>c\<in>set (connections nodes edges).
           \<not> is_compatible (mm_expected d) (mm_actual d)
           \<and> mm_suggested_cast d = mm_expected d
           \<and> mm_from d = efrom c \<and> mm_to d = eto c \<and> mm_toPort d = toPort c"
proof -
  from assms obtain tab0 where t0: "literal_types defs nodes Map.empty = Inr tab0"
    using literal_types_error
    by (cases "literal_types defs nodes Map.empty") (fastforce simp: validate_types_def)+
  let ?tab = "declared_types defs nodes tab0"
  let ?conns = "connections nodes edges"
  from assms t0 have "\<exists>u. check_endpoints nodes ?conns = Inr u"
    using check_endpoints_error
    by (cases "check_endpoints nodes ?conns") (fastforce simp: validate_types_def Let_def)+
  then have "check_dests nodes defs ?tab (group_by_dest ?conns []) = Inl (TypeMismatch d)"
    using assms t0 by (auto simp: validate_types_def Let_def split: sum.splits)
  from check_dests_mismatch [OF this]
  obtain k cs c where "(k, cs) \<in> set (group_by_dest ?conns [])" and c: "c \<in> set cs"
    and p: "\<not> is_compatible (mm_expected d) (mm_actual d) \<and> mm_suggested_cast d = mm_expected d
      \<and> mm_from d = efrom c \<and> mm_to d = eto c \<and> mm_toPort d = toPort c"
    by blast
  then have "c \<in> set ?conns" using group_by_dest_members by fastforce
  then show ?thesis using p by blast
qed

text \<open>The loops over the connections of one destination and over the destinations stop at
  the first error.\<close>

lemma check_incoming_append:
  "check_incoming nodes defs tab dest dest_inputs idx (xs @ ys) =
     (case check_incoming nodes defs tab dest dest_inputs idx xs of
        Inl e \<Rightarrow> Inl e
      | Inr u \<Rightarrow> check_incoming nodes defs tab dest dest_inputs (idx + length xs) ys)"
  by (induction xs arbitrary: idx) (auto split: sum.splits)

lemma check_dests_append:
  "check_dests nodes defs tab (gs @ hs) =
     (case check_dests nodes defs tab gs of
        Inl e \<Rightarrow> Inl e
      | Inr u \<Rightarrow> check_dests nodes defs tab hs)"
  by (induction gs) (auto split: sum.splits option.splits)

text \<open>
  Claim C2, with type names read without regard to case. Take a run of \<open>validate_types\<close>
  in which every node type is known and every connection has its two ends, and a
  connection \<open>c\<close> that the run reaches: it is one of the connections into \<open>dest\<close>, the
  connections into the destinations before \<open>dest\<close> and the connections into \<open>dest\<close> before
  \<open>c\<close> have passed, and the expected and the actual type of \<open>c\<close> are determined. Then
  \<open>validate_types\<close> raises the type mismatch of \<open>c\<close>, whose details are the source, the
  destination, the destination port, the expected type, the actual type and the expected
  type again as the suggested cast, if and only if the actual type is not assignable to
  the expected one, the names read in lower case and a missing or empty type read as
  \<open>any\<close>. If it is assignable, the run goes on with the connections after \<open>c\<close> and
  succeeds when they pass. Whatever type mismatch \<open>validate_types\<close> raises belongs to a
  connection, its actual type is not assignable to its expected type, and its suggested
  cast is the expected type. An \<open>int\<close> is assignable to a \<open>double\<close> and a \<open>double\<close> is not
  assignable to an \<open>int\<close>.
\<close>

theorem type_mismatch_iff_not_assignable:
  assumes lit: "literal_types defs nodes Map.empty = Inr tab0"
    and ends: "check_endpoints nodes (connections nodes edges) = Inr ()"
    and grp: "group_by_dest (connections nodes edges) [] = gpre @ (dest, cpre @ c # cpost) # gpost"
    and gpre: "check_dests nodes defs (declared_types defs nodes tab0) gpre = Inr ()"
    and dn: "id_to_node nodes dest = Some dest_node"
    and cpre: "check_incoming nodes defs (declared_types defs nodes tab0) dest
                 (inputs_of_type defs (ntype dest_node)) 0 cpre = Inr ()"
    and exp: "expected_type dest (inputs_of_type defs (ntype dest_node)) (length cpre) c
                = Inr expected"
    and sn: "id_to_node nodes (efrom c) = Some src_node"
    and act: "actual_type (declared_types defs nodes tab0)
                (outputs_of_type defs (ntype src_node)) c = Inr actual"
  shows "(validate_types nodes defs edges =
            Inl (TypeMismatch \<lparr>mm_from = efrom c, mm_to = eto c, mm_toPort = toPort c,
                   mm_expected = expected, mm_actual = actual,
                   mm_suggested_cast = expected\<rparr>)
          \<longleftrightarrow> \<not> assignable_lowered expected actual)
       \<and> (assignable_lowered expected actual \<longrightarrow>
            validate_types nodes defs edges =
              (case check_incoming nodes defs (declared_types defs nodes tab0) dest
                      (inputs_of_type defs (ntype dest_node)) (Suc (length cpre)) cpost of
                 Inl e \<Rightarrow> Inl e
               | Inr u \<Rightarrow>
                   (case check_dests nodes defs (declared_types defs nodes tab0) gpost of
                      Inl e \<Rightarrow> Inl e
                    | Inr u' \<Rightarrow> Inr True)))
       \<and> (\<forall>d. validate_types nodes defs edges = Inl (TypeMismatch d) \<longrightarrow>
              \<not> assignable_lowered (mm_expected d) (mm_actual d)
              \<and> mm_suggested_cast d = mm_expected d
              \<and> (\<exists>c'\<in>set (connections nodes edges).
                    mm_from d = efrom c' \<and> mm_to d = eto c' \<and> mm_toPort d = toPort c'))
       \<and> assignable_lowered (Some ''double'') (Some ''int'')
       \<and> \<not> assignable_lowered (Some ''int'') (Some ''double'')"
proof -
  let ?tab = "declared_types defs nodes tab0"
  let ?di = "inputs_of_type defs (ntype dest_node)"
  let ?d = "\<lparr>mm_from = efrom c, mm_to = eto c, mm_toPort = toPort c,
             mm_expected = expected, mm_actual = actual, mm_suggested_cast = expected\<rparr>"
  let ?rest = "case check_incoming nodes defs ?tab dest ?di (Suc (length cpre)) cpost of
                 Inl e \<Rightarrow> Inl e
               | Inr u \<Rightarrow>
                   (case check_dests nodes defs ?tab gpost of
                      Inl e \<Rightarrow> Inl e
                    | Inr u' \<Rightarrow> Inr True)"
  have run: "check_connection nodes defs ?tab dest ?di (length cpre) c =
               compare_types c expected actual"
    using exp sn act by (simp add: check_connection_def)
  have inc: "check_incoming nodes defs ?tab dest ?di 0 (cpre @ c # cpost) =
               (case compare_types c expected actual of
                  Inl e \<Rightarrow> Inl e
                | Inr u \<Rightarrow> check_incoming nodes defs ?tab dest ?di (Suc (length cpre)) cpost)"
    by (simp add: check_incoming_append cpre run)
  have val: "validate_types nodes defs edges =
               (case check_dests nodes defs ?tab (gpre @ (dest, cpre @ c # cpost) # gpost) of
                  Inl e \<Rightarrow> Inl e
                | Inr u \<Rightarrow> Inr True)"
    using lit ends grp by (simp add: validate_types_def Let_def)
  have dst: "check_dests nodes defs ?tab (gpre @ (dest, cpre @ c # cpost) # gpost) =
               (case compare_types c expected actual of
                  Inl e \<Rightarrow> Inl e
                | Inr u \<Rightarrow>
                    (case check_incoming nodes defs ?tab dest ?di (Suc (length cpre)) cpost of
                       Inl e \<Rightarrow> Inl e
                     | Inr u \<Rightarrow> check_dests nodes defs ?tab gpost))"
    by (simp add: check_dests_append gpre dn inc split: sum.splits)
  have raised: "\<And>d. validate_types nodes defs edges = Inl (TypeMismatch d) \<Longrightarrow>
                  \<not> assignable_lowered (mm_expected d) (mm_actual d)
                  \<and> mm_suggested_cast d = mm_expected d
                  \<and> (\<exists>c'\<in>set (connections nodes edges).
                        mm_from d = efrom c' \<and> mm_to d = eto c' \<and> mm_toPort d = toPort c')"
    using validate_types_mismatch is_compatible_lowered by blast
  have bad: "\<not> assignable_lowered expected actual \<Longrightarrow>
               validate_types nodes defs edges = Inl (TypeMismatch ?d)"
    by (simp add: val dst compare_types_def is_compatible_lowered)
  have good: "assignable_lowered expected actual \<Longrightarrow> validate_types nodes defs edges = ?rest"
    by (simp add: val dst compare_types_def is_compatible_lowered split: sum.splits)
  have only: "validate_types nodes defs edges = Inl (TypeMismatch ?d) \<Longrightarrow>
                \<not> assignable_lowered expected actual"
    using raised [of ?d] by simp
  have widen: "assignable_lowered (Some ''double'') (Some ''int'')"
    using is_compatible_lowered [of "Some ''double''" "Some ''int''"]
    by (simp add: is_compatible_def canonical_double canonical_int)
  have narrow: "\<not> assignable_lowered (Some ''int'') (Some ''double'')"
    using is_compatible_lowered [of "Some ''int''" "Some ''double''"]
    by (simp add: is_compatible_def canonical_double canonical_int)
  show ?thesis using bad good only raised widen narrow by blast
qed

text \<open>Scenario 3 of the specification: the text literal \<open>S\<close> is wired to port \<open>a\<close> of the
  \<open>Add\<close> node \<open>A\<close>, which expects a number; this is the first connection checked, and it
  is rejected. And three integer literals wired by position to an \<open>Add\<close> node: the second
  connection is reached after the first has passed, an \<open>int\<close> is assignable to the number
  it expects, and the run goes on to succeed.\<close>

theorem type_mismatch_witness:
  "validate_types mismatch_nodes sample_defs mismatch_edges
     = Inl (TypeMismatch \<lparr>mm_from = ''S'', mm_to = ''A'', mm_toPort = Some ''a'',
              mm_expected = Some ''number'', mm_actual = Some ''string'',
              mm_suggested_cast = Some ''number''\<rparr>)
   \<and> validate_types arity_nodes sample_defs arity_edges = Inr True"
proof -
  let ?c = "mk_edge ''S'' ''A'' (Some ''a'')"
  let ?c2 = "mk_edge ''N'' ''A'' (Some ''b'')"
  let ?t0 = "projr (literal_types sample_defs mismatch_nodes Map.empty)"
  let ?tab = "declared_types sample_defs mismatch_nodes ?t0"
  let ?A = "mk_node ''A'' ''Add'' PNone []"
  let ?S = "mk_node ''S'' ''Literal'' (PStr ''1'') []"
  have lit: "literal_types sample_defs mismatch_nodes Map.empty = Inr ?t0"
    by (simp add: mismatch_nodes_def sample_defs_def mk_node_def)
  have ends: "check_endpoints mismatch_nodes (connections mismatch_nodes mismatch_edges) = Inr ()"
    by (simp add: connections_def mismatch_nodes_def mismatch_edges_def mk_node_def mk_edge_def
        id_to_node_def)
  have grp: "group_by_dest (connections mismatch_nodes mismatch_edges) []
               = [] @ (''A'', [] @ ?c # [?c2]) # []"
    by (simp add: connections_def mismatch_edges_def mk_edge_def)
  have gpre: "check_dests mismatch_nodes sample_defs ?tab [] = Inr ()" by simp
  have dn: "id_to_node mismatch_nodes ''A'' = Some ?A"
    by (simp add: id_to_node_def mismatch_nodes_def mk_node_def)
  have cpre: "check_incoming mismatch_nodes sample_defs ?tab ''A''
                (inputs_of_type sample_defs (ntype ?A)) 0 [] = Inr ()" by simp
  have exp: "expected_type ''A'' (inputs_of_type sample_defs (ntype ?A)) (length ([] :: edge list)) ?c
               = Inr (Some ''number'')"
    by (simp add: expected_type_def inputs_of_type_def sample_defs_def mk_edge_def mk_node_def)
  have sn: "id_to_node mismatch_nodes (efrom ?c) = Some ?S"
    by (simp add: id_to_node_def mismatch_nodes_def mk_edge_def mk_node_def)
  have act: "actual_type ?tab (outputs_of_type sample_defs (ntype ?S)) ?c = Inr (Some ''string'')"
    by (simp add: actual_type_def outputs_of_type_def sample_defs_def mk_edge_def mk_node_def
        mismatch_nodes_def)
  have na: "\<not> assignable_lowered (Some ''number'') (Some ''string'')"
    by (simp add: assignable_lowered_def spec_assignable_def lowered_name_def lower_def
        lower_char_simps spec_canonical_def assignable_def)
  have first: "validate_types mismatch_nodes sample_defs mismatch_edges
     = Inl (TypeMismatch \<lparr>mm_from = ''S'', mm_to = ''A'', mm_toPort = Some ''a'',
              mm_expected = Some ''number'', mm_actual = Some ''string'',
              mm_suggested_cast = Some ''number''\<rparr>)"
    using type_mismatch_iff_not_assignable [OF lit ends grp gpre dn cpre exp sn act] na
    by (simp add: mk_edge_def)
  let ?x = "mk_edge ''x'' ''s'' None"
  let ?y = "mk_edge ''y'' ''s'' None"
  let ?z = "mk_edge ''z'' ''s'' None"
  let ?u0 = "projr (literal_types sample_defs arity_nodes Map.empty)"
  let ?utab = "declared_types sample_defs arity_nodes ?u0"
  let ?s = "mk_node ''s'' ''Add'' PNone []"
  let ?Y = "mk_node ''y'' ''Literal'' (PInt 2) []"
  have lit': "literal_types sample_defs arity_nodes Map.empty = Inr ?u0"
    by (simp add: arity_nodes_def sample_defs_def mk_node_def)
  have ends': "check_endpoints arity_nodes (connections arity_nodes arity_edges) = Inr ()"
    by (simp add: connections_def arity_nodes_def arity_edges_def mk_node_def mk_edge_def
        id_to_node_def)
  have grp': "group_by_dest (connections arity_nodes arity_edges) []
               = [] @ (''s'', [?x] @ ?y # [?z]) # []"
    by (simp add: connections_def arity_edges_def mk_edge_def)
  have gpre': "check_dests arity_nodes sample_defs ?utab [] = Inr ()" by simp
  have dn': "id_to_node arity_nodes ''s'' = Some ?s"
    by (simp add: id_to_node_def arity_nodes_def mk_node_def)
  have cpre': "check_incoming arity_nodes sample_defs ?utab ''s''
                (inputs_of_type sample_defs (ntype ?s)) 0 [?x] = Inr ()"
    by (simp add: check_connection_def expected_type_def actual_type_def compare_types_def
        inputs_of_type_def outputs_of_type_def sample_defs_def mk_edge_def mk_node_def
        arity_nodes_def id_to_node_def is_compatible_def canonical_number canonical_int)
  have exp': "expected_type ''s'' (inputs_of_type sample_defs (ntype ?s)) (length [?x]) ?y
               = Inr (Some ''number'')"
    by (simp add: expected_type_def inputs_of_type_def sample_defs_def mk_edge_def mk_node_def)
  have sn': "id_to_node arity_nodes (efrom ?y) = Some ?Y"
    by (simp add: id_to_node_def arity_nodes_def mk_edge_def mk_node_def)
  have act': "actual_type ?utab (outputs_of_type sample_defs (ntype ?Y)) ?y = Inr (Some ''int'')"
    by (simp add: actual_type_def outputs_of_type_def sample_defs_def mk_edge_def mk_node_def
        arity_nodes_def)
  have ok: "assignable_lowered (Some ''number'') (Some ''int'')"
    by (simp add: assignable_lowered_def spec_assignable_def lowered_name_def lower_def
        lower_char_simps spec_canonical_def assignable_def)
  have rest: "check_incoming arity_nodes sample_defs ?utab ''s''
                (inputs_of_type sample_defs (ntype ?s)) (Suc (length [?x])) [?z] = Inr ()"
    by (simp add: check_connection_def expected_type_def actual_type_def compare_types_def
        inputs_of_type_def outputs_of_type_def sample_defs_def mk_edge_def mk_node_def
        arity_nodes_def id_to_node_def compatible_any_left)
  have "validate_types arity_nodes sample_defs arity_edges =
          (case check_incoming arity_nodes sample_defs ?utab ''s''
                  (inputs_of_type sample_defs (ntype ?s)) (Suc (length [?x])) [?z] of
             Inl e \<Rightarrow> Inl e
           | Inr u \<Rightarrow>
               (case check_dests arity_nodes sample_defs ?utab [] of
                  Inl e \<Rightarrow> Inl e
                | Inr u' \<Rightarrow> Inr True))"
    using type_mismatch_iff_not_assignable [OF lit' ends' grp' gpre' dn' cpre' exp' sn' act'] ok
    by blast
  then have second: "validate_types arity_nodes sample_defs arity_edges = Inr True"
    unfolding rest by simp
  show ?thesis using first second by simp
qed

lemma lower_Foo: "lower ''Foo'' = ''foo''"
  by code_simp

lemma lower_foo: "lower ''foo'' = ''foo''"
  by (simp add: lower_def lower_char_simps)

text \<open>With the names kept verbatim, as the specification has them, \<open>foo\<close> is not assignable
  to \<open>Foo\<close>: neither is \<open>any\<close>, the two differ, and the expected one is not \<open>double\<close>. The
  source compares the names in lower case, and \<open>validate_types\<close> accepts the connection
  whose expected type is \<open>Foo\<close> and whose actual type is \<open>foo\<close>.\<close>

theorem verbatim_names_counterexample:
  "expected_type ''t'' (inputs_of_type case_defs ''Sink'') 0 (mk_edge ''s'' ''t'' (Some ''in''))
     = Inr (Some ''Foo'')
   \<and> actual_type
        (declared_types case_defs case_nodes (projr (literal_types case_defs case_nodes Map.empty)))
        (outputs_of_type case_defs ''Source'') (mk_edge ''s'' ''t'' (Some ''in''))
     = Inr (Some ''foo'')
   \<and> \<not> spec_assignable ''Foo'' ''foo''
   \<and> validate_types case_nodes case_defs case_edges = Inr True"
  by (simp add: validate_types_def case_nodes_def case_edges_def case_defs_def
      mk_node_def mk_edge_def connections_def id_to_node_def check_connection_def
      expected_type_def actual_type_def compare_types_def inputs_of_type_def
      outputs_of_type_def is_compatible_def canonical_type_def lower_Foo lower_foo
      spec_assignable_def spec_canonical_def assignable_def Let_def)

subsection \<open>Arity\<close>




subsection \<open>Diagnostic back-projection\<close>

lemma hd_sort_key_min:
  assumes "xs \<noteq> []"
  shows "hd (sort_key f xs) \<in> set xs \<and> (\<forall>x\<in>set xs. f (hd (sort_key f xs)) \<le> f x)"
proof -
  let ?ys = "sort_key f xs"
  have ne: "?ys \<noteq> []" using assms by (metis set_sort set_empty)
  then obtain y ys where ys: "?ys = y # ys" by (cases ?ys) auto
  have srt: "sorted (map f ?ys)" by simp
  have "y \<in> set xs" using ys by (metis list.set_intros(1) set_sort)
  moreover have "\<forall>x\<in>set xs. f y \<le> f x"
  proof
    fix x assume "x \<in> set xs"
    then have "x \<in> set (y # ys)" using ys by (metis set_sort)
    then show "f y \<le> f x" using srt ys by auto
  qed
  ultimately show ?thesis using ys by simp
qed

lemma col_match_encloses:
  "one_based m \<Longrightarrow> col_match line col m \<longleftrightarrow> encloses m line col"
  by (cases "start_line m"; cases "end_line m"; cases "start_col m"; cases "end_col m")
     (auto simp: col_match_def encloses_def one_based_def)

lemma line_match_contains:
  "one_based m \<Longrightarrow> line_match line m \<longleftrightarrow> contains_line m line"
  by (cases "start_line m"; cases "end_line m")
     (auto simp: line_match_def contains_line_def one_based_def)

lemma col_key_area:
  assumes "encloses m line col" and "encloses m' line' col'"
  shows "col_key m \<le> col_key m' \<longleftrightarrow> area_le m m'"
  using assms
  by (auto simp: encloses_def col_key_def area_le_def line_extent_def col_extent_def
      less_eq_prod_def split: option.splits)

lemma line_key_extent:
  assumes "contains_line m line" and "contains_line m' line'"
  shows "line_key m \<le> line_key m' \<longleftrightarrow> line_extent m \<le> line_extent m'"
  using assms
  by (auto simp: contains_line_def line_key_def line_extent_def split: option.splits)

text \<open>The loop body, case by case.\<close>

lemma map_error_cases:
  assumes wf: "\<forall>m\<in>set mapping. one_based m"
  shows "(has_enclosing mapping err \<longrightarrow>
           (\<exists>m\<in>set mapping. \<exists>col. d_col err = Some col \<and> encloses m (d_line err) col
              \<and> (\<forall>m'\<in>set mapping. encloses m' (d_line err) col \<longrightarrow> area_le m m')
              \<and> map_error mapping err = attribute err m))
       \<and> (\<not> has_enclosing mapping err \<and> (\<exists>m\<in>set mapping. contains_line m (d_line err)) \<longrightarrow>
           (\<exists>m\<in>set mapping. contains_line m (d_line err)
              \<and> (\<forall>m'\<in>set mapping. contains_line m' (d_line err) \<longrightarrow>
                    line_extent m \<le> line_extent m')
              \<and> map_error mapping err = attribute err m))
       \<and> (\<not> has_enclosing mapping err \<and> \<not> (\<exists>m\<in>set mapping. contains_line m (d_line err)) \<longrightarrow>
           map_error mapping err = unmapped err)"
proof -
  let ?line = "d_line err"
  let ?cm = "case d_col err of None \<Rightarrow> [] | Some col \<Rightarrow> filter (col_match ?line col) mapping"
  let ?lm = "filter (line_match ?line) mapping"
  have cm_set: "\<And>col. d_col err = Some col \<Longrightarrow>
                  set ?cm = {m \<in> set mapping. encloses m ?line col}"
    using wf by (auto simp: col_match_encloses)
  have lm_set: "set ?lm = {m \<in> set mapping. contains_line m ?line}"
    using wf by (auto simp: line_match_contains)
  have cm_ne: "?cm \<noteq> [] \<longleftrightarrow> has_enclosing mapping err"
  proof (cases "d_col err")
    case None
    then show ?thesis by (simp add: has_enclosing_def)
  next
    case (Some col)
    have cm_eq: "?cm = filter (col_match ?line col) mapping" using Some by simp
    have "filter (col_match ?line col) mapping \<noteq> []
            \<longleftrightarrow> (\<exists>m\<in>set mapping. col_match ?line col m)"
      by (simp add: filter_empty_conv)
    also have "\<dots> \<longleftrightarrow> (\<exists>m\<in>set mapping. encloses m ?line col)"
      using wf by (auto simp: col_match_encloses)
    finally show ?thesis unfolding cm_eq using Some by (simp add: has_enclosing_def)
  qed
  have lm_ne: "?lm \<noteq> [] \<longleftrightarrow> (\<exists>m\<in>set mapping. contains_line m ?line)"
  proof -
    have "?lm \<noteq> [] \<longleftrightarrow> (\<exists>m\<in>set mapping. line_match ?line m)"
      by (simp add: filter_empty_conv)
    also have "\<dots> \<longleftrightarrow> (\<exists>m\<in>set mapping. contains_line m ?line)"
      using wf by (auto simp: line_match_contains)
    finally show ?thesis .
  qed
  have A: "has_enclosing mapping err \<longrightarrow>
           (\<exists>m\<in>set mapping. \<exists>col. d_col err = Some col \<and> encloses m ?line col
              \<and> (\<forall>m'\<in>set mapping. encloses m' ?line col \<longrightarrow> area_le m m')
              \<and> map_error mapping err = attribute err m)"
  proof
    assume he: "has_enclosing mapping err"
    then obtain col where col: "d_col err = Some col" by (auto simp: has_enclosing_def)
    have ne: "?cm \<noteq> []" using he cm_ne by simp
    let ?m = "hd (sort_key col_key ?cm)"
    have hm: "?m \<in> set ?cm" and least: "\<forall>x\<in>set ?cm. col_key ?m \<le> col_key x"
      using hd_sort_key_min [OF ne, of col_key] by blast+
    have inm: "?m \<in> set mapping" and enc: "encloses ?m ?line col"
      using hm cm_set [OF col] by auto
    have min: "\<forall>m'\<in>set mapping. encloses m' ?line col \<longrightarrow> area_le ?m m'"
    proof (intro ballI impI)
      fix m' assume m': "m' \<in> set mapping" "encloses m' ?line col"
      then have "m' \<in> set ?cm" using cm_set [OF col] by auto
      then have "col_key ?m \<le> col_key m'" using least by blast
      then show "area_le ?m m'" using col_key_area [OF enc m'(2)] by simp
    qed
    have res: "map_error mapping err = attribute err ?m"
      using ne by (simp add: map_error_def Let_def)
    show "\<exists>m\<in>set mapping. \<exists>col. d_col err = Some col \<and> encloses m ?line col
              \<and> (\<forall>m'\<in>set mapping. encloses m' ?line col \<longrightarrow> area_le m m')
              \<and> map_error mapping err = attribute err m"
      using inm col enc min res by blast
  qed
  have B: "\<not> has_enclosing mapping err \<and> (\<exists>m\<in>set mapping. contains_line m ?line) \<longrightarrow>
           (\<exists>m\<in>set mapping. contains_line m ?line
              \<and> (\<forall>m'\<in>set mapping. contains_line m' ?line \<longrightarrow> line_extent m \<le> line_extent m')
              \<and> map_error mapping err = attribute err m)"
  proof
    assume h: "\<not> has_enclosing mapping err \<and> (\<exists>m\<in>set mapping. contains_line m ?line)"
    then have e: "?cm = []" and ne: "?lm \<noteq> []" using cm_ne lm_ne by auto
    let ?m = "hd (sort_key line_key ?lm)"
    have hm: "?m \<in> set ?lm" and least: "\<forall>x\<in>set ?lm. line_key ?m \<le> line_key x"
      using hd_sort_key_min [OF ne, of line_key] by blast+
    have inm: "?m \<in> set mapping" and con: "contains_line ?m ?line"
      using hm lm_set by auto
    have min: "\<forall>m'\<in>set mapping. contains_line m' ?line \<longrightarrow> line_extent ?m \<le> line_extent m'"
    proof (intro ballI impI)
      fix m' assume m': "m' \<in> set mapping" "contains_line m' ?line"
      then have "m' \<in> set ?lm" using lm_set by auto
      then have "line_key ?m \<le> line_key m'" using least by blast
      then show "line_extent ?m \<le> line_extent m'" using line_key_extent [OF con m'(2)] by simp
    qed
    have res: "map_error mapping err = attribute err ?m"
      using e ne by (simp add: map_error_def Let_def)
    show "\<exists>m\<in>set mapping. contains_line m ?line
              \<and> (\<forall>m'\<in>set mapping. contains_line m' ?line \<longrightarrow> line_extent m \<le> line_extent m')
              \<and> map_error mapping err = attribute err m"
      using inm con min res by blast
  qed
  have C: "\<not> has_enclosing mapping err \<and> \<not> (\<exists>m\<in>set mapping. contains_line m ?line) \<longrightarrow>
           map_error mapping err = unmapped err"
  proof
    assume h: "\<not> has_enclosing mapping err \<and> \<not> (\<exists>m\<in>set mapping. contains_line m ?line)"
    then have e: "?cm = []" and e2: "?lm = []" using cm_ne lm_ne by auto
    show "map_error mapping err = unmapped err"
      using e e2 by (simp add: map_error_def Let_def)
  qed
  show ?thesis using A B C by blast
qed

text \<open>
  Claim C7. Take a mapping table whose entries are 1-based and a list of diagnostics;
  \<open>map_errors_to_nodes\<close> returns one result for each diagnostic, in order, and the
  result carries the diagnostic. If the diagnostic has a column and some entry encloses
  its line and column, the node, function and port of the result are those of an
  enclosing entry whose area (line extent, then column extent) is least among the
  enclosing entries. Otherwise, if some entry's line range contains the line, they are
  those of such an entry of least line extent. Otherwise the result has no node,
  function or port.
\<close>

theorem map_error_resolution:
  assumes wf: "\<forall>m\<in>set mapping. one_based m" and i: "i < length errors"
  shows "length (map_errors_to_nodes errors mapping) = length errors
       \<and> m_error (map_errors_to_nodes errors mapping ! i) = errors ! i
       \<and> (has_enclosing mapping (errors ! i) \<longrightarrow>
           (\<exists>m\<in>set mapping. \<exists>col. d_col (errors ! i) = Some col
              \<and> encloses m (d_line (errors ! i)) col
              \<and> (\<forall>m'\<in>set mapping. encloses m' (d_line (errors ! i)) col \<longrightarrow> area_le m m')
              \<and> m_node_id (map_errors_to_nodes errors mapping ! i) = Some (me_node_id m)
              \<and> m_function (map_errors_to_nodes errors mapping ! i) = me_function m
              \<and> m_port (map_errors_to_nodes errors mapping ! i) = me_port m))
       \<and> (\<not> has_enclosing mapping (errors ! i)
            \<and> (\<exists>m\<in>set mapping. contains_line m (d_line (errors ! i))) \<longrightarrow>
           (\<exists>m\<in>set mapping. contains_line m (d_line (errors ! i))
              \<and> (\<forall>m'\<in>set mapping. contains_line m' (d_line (errors ! i)) \<longrightarrow>
                    line_extent m \<le> line_extent m')
              \<and> m_node_id (map_errors_to_nodes errors mapping ! i) = Some (me_node_id m)
              \<and> m_function (map_errors_to_nodes errors mapping ! i) = me_function m
              \<and> m_port (map_errors_to_nodes errors mapping ! i) = me_port m))
       \<and> (\<not> has_enclosing mapping (errors ! i)
            \<and> \<not> (\<exists>m\<in>set mapping. contains_line m (d_line (errors ! i))) \<longrightarrow>
           m_node_id (map_errors_to_nodes errors mapping ! i) = None
           \<and> m_function (map_errors_to_nodes errors mapping ! i) = None
           \<and> m_port (map_errors_to_nodes errors mapping ! i) = None)"
proof -
  let ?err = "errors ! i"
  let ?r = "map_errors_to_nodes errors mapping ! i"
  have r: "?r = map_error mapping ?err" using i by (simp add: map_errors_to_nodes_def)
  have len: "length (map_errors_to_nodes errors mapping) = length errors"
    by (simp add: map_errors_to_nodes_def)
  have att: "\<And>m. map_error mapping ?err = attribute ?err m \<Longrightarrow>
               m_error ?r = ?err \<and> m_node_id ?r = Some (me_node_id m)
               \<and> m_function ?r = me_function m \<and> m_port ?r = me_port m"
    using r by (simp add: attribute_def)
  have unm: "map_error mapping ?err = unmapped ?err \<Longrightarrow>
               m_error ?r = ?err \<and> m_node_id ?r = None \<and> m_function ?r = None \<and> m_port ?r = None"
    using r by (simp add: unmapped_def)
  note cases = map_error_cases [OF wf, of ?err]
  have E: "m_error ?r = ?err"
  proof (cases "has_enclosing mapping ?err")
    case True
    then show ?thesis using cases att by blast
  next
    case False
    then show ?thesis using cases att unm by blast
  qed
  have A: "has_enclosing mapping ?err \<longrightarrow>
           (\<exists>m\<in>set mapping. \<exists>col. d_col ?err = Some col \<and> encloses m (d_line ?err) col
              \<and> (\<forall>m'\<in>set mapping. encloses m' (d_line ?err) col \<longrightarrow> area_le m m')
              \<and> m_node_id ?r = Some (me_node_id m) \<and> m_function ?r = me_function m
              \<and> m_port ?r = me_port m)"
  proof
    assume "has_enclosing mapping ?err"
    then obtain m col where "m \<in> set mapping" "d_col ?err = Some col"
      "encloses m (d_line ?err) col"
      "\<forall>m'\<in>set mapping. encloses m' (d_line ?err) col \<longrightarrow> area_le m m'"
      "map_error mapping ?err = attribute ?err m"
      using cases by blast
    then show "\<exists>m\<in>set mapping. \<exists>col. d_col ?err = Some col \<and> encloses m (d_line ?err) col
              \<and> (\<forall>m'\<in>set mapping. encloses m' (d_line ?err) col \<longrightarrow> area_le m m')
              \<and> m_node_id ?r = Some (me_node_id m) \<and> m_function ?r = me_function m
              \<and> m_port ?r = me_port m"
      using att [of m] by blast
  qed
  have B: "\<not> has_enclosing mapping ?err \<and> (\<exists>m\<in>set mapping. contains_line m (d_line ?err)) \<longrightarrow>
           (\<exists>m\<in>set mapping. contains_line m (d_line ?err)
              \<and> (\<forall>m'\<in>set mapping. contains_line m' (d_line ?err) \<longrightarrow>
                    line_extent m \<le> line_extent m')
              \<and> m_node_id ?r = Some (me_node_id m) \<and> m_function ?r = me_function m
              \<and> m_port ?r = me_port m)"
  proof
    assume "\<not> has_enclosing mapping ?err \<and> (\<exists>m\<in>set mapping. contains_line m (d_line ?err))"
    then obtain m where "m \<in> set mapping" "contains_line m (d_line ?err)"
      "\<forall>m'\<in>set mapping. contains_line m' (d_line ?err) \<longrightarrow> line_extent m \<le> line_extent m'"
      "map_error mapping ?err = attribute ?err m"
      using cases by blast
    then show "\<exists>m\<in>set mapping. contains_line m (d_line ?err)
              \<and> (\<forall>m'\<in>set mapping. contains_line m' (d_line ?err) \<longrightarrow>
                    line_extent m \<le> line_extent m')
              \<and> m_node_id ?r = Some (me_node_id m) \<and> m_function ?r = me_function m
              \<and> m_port ?r = me_port m"
      using att [of m] by blast
  qed
  have C: "\<not> has_enclosing mapping ?err
            \<and> \<not> (\<exists>m\<in>set mapping. contains_line m (d_line ?err)) \<longrightarrow>
           m_node_id ?r = None \<and> m_function ?r = None \<and> m_port ?r = None"
    using cases unm by blast
  show ?thesis using len E A B C by blast
qed

text \<open>A diagnostic at line 2, column 29 of the table of an addition, whose three entries
  lie on line 2 at columns 21 to 24 (port a), 28 to 31 (port b) and 5 to 32 (the whole
  statement): the innermost span is the one of port b.\<close>

theorem map_error_resolution_witness:
  "m_node_id (map_errors_to_nodes [diag_at 2 (Some 29)] add_table ! 0) = Some ''add1''
   \<and> m_port (map_errors_to_nodes [diag_at 2 (Some 29)] add_table ! 0) = Some ''b''
   \<and> m_function (map_errors_to_nodes [diag_at 2 (Some 29)] add_table ! 0) = None"
proof -
  let ?d = "diag_at 2 (Some 29)"
  let ?b = "mk_entry ''add1'' (Some ''b'') 2 28 31"
  let ?r = "map_errors_to_nodes [?d] add_table ! 0"
  have wf: "\<forall>m\<in>set add_table. one_based m"
    by (simp add: add_table_def mk_entry_def one_based_def)
  have i: "0 < length [?d]" by simp
  have d0: "[?d] ! 0 = ?d" by simp
  have b_in: "?b \<in> set add_table" by (simp add: add_table_def)
  have b_enc: "encloses ?b 2 29" by (simp add: encloses_def mk_entry_def)
  have he: "has_enclosing add_table ?d"
    unfolding has_enclosing_def using b_in b_enc by (auto simp: diag_at_def)
  from map_error_resolution [OF wf i] he
  obtain m col where m: "m \<in> set add_table" and c: "d_col ?d = Some col"
    and enc: "encloses m (d_line ?d) col"
    and least: "\<forall>m'\<in>set add_table. encloses m' (d_line ?d) col \<longrightarrow> area_le m m'"
    and res: "m_node_id ?r = Some (me_node_id m)" "m_function ?r = me_function m"
             "m_port ?r = me_port m"
    unfolding d0 by blast
  have col: "col = 29" and line: "d_line ?d = 2" using c by (simp_all add: diag_at_def)
  have "area_le m ?b" using least b_in b_enc col line by simp
  then have "m = ?b"
    using m enc col line
    by (auto simp: add_table_def mk_entry_def encloses_def area_le_def line_extent_def
        col_extent_def)
  then show ?thesis using res by (simp add: mk_entry_def)
qed

text \<open>The guards of the source test the bounds for truth, so that a bound equal to 0 is
  treated like a missing one: an entry that starts in column 0 is not taken as a column
  match, and the line fallback decides. Such an entry is not 1-based.\<close>

lemma zero_start_col_is_skipped:
  "encloses (mk_entry ''n1'' None 1 0 5) 1 3
   \<and> \<not> encloses (mk_entry ''n2'' None 1 10 20) 1 3
   \<and> map_error [mk_entry ''n2'' None 1 10 20, mk_entry ''n1'' None 1 0 5] (diag_at 1 (Some 3))
       = attribute (diag_at 1 (Some 3)) (mk_entry ''n2'' None 1 10 20)"
  by (simp add: map_error_def diag_at_def mk_entry_def col_match_def line_match_def
      line_key_def encloses_def attribute_def)
subsection \<open>Emitter\<close>

lemma ensure_lib_includes_fields [simp]:
  "code_lines (ensure_lib_includes st t) = code_lines st"
  "mapping_entries (ensure_lib_includes st t) = mapping_entries st"
  "var_names (ensure_lib_includes st t) = var_names st"
  "used_names (ensure_lib_includes st t) = used_names st"
  "indent_level (ensure_lib_includes st t) = indent_level st"
  "node_defs (ensure_lib_includes st t) = node_defs st"
  "incoming_by_node (ensure_lib_includes st t) = incoming_by_node st"
  "incoming_list_by_node (ensure_lib_includes st t) = incoming_list_by_node st"
  by (simp_all add: ensure_lib_includes_def split: option.splits)

lemma make_var_fields [simp]:
  "code_lines (snd (make_var st i)) = code_lines st"
  "mapping_entries (snd (make_var st i)) = mapping_entries st"
  "var_names (snd (make_var st i)) = var_names st"
  "indent_level (snd (make_var st i)) = indent_level st"
  by (simp_all add: make_var_def Let_def)

lemma indent_cong [simp]:
  "indent (st\<lparr>var_names := v\<rparr>) = indent st"
  "indent (snd (make_var st i)) = indent st"
  "indent (ensure_lib_includes st t) = indent st"
  "indent (st\<lparr>include_set := s\<rparr>) = indent st"
  by (simp_all add: indent_def)

lemma resolve_ensure [simp]:
  "resolve_input_for_node (ensure_lib_includes st t) n p i lmap llist =
   resolve_input_for_node st n p i lmap llist"
  by (simp add: resolve_input_for_node_def cong: option.case_cong)

lemma arith_sources_ensure [simp]:
  "arith_sources (ensure_lib_includes st t) n lmap llist = arith_sources st n lmap llist"
  unfolding arith_sources_def resolve_ensure ensure_lib_includes_fields by (rule refl)

lemma emit_arith_top_lines:
  "code_lines (emit_arith_top st n) =
     code_lines st @
       [arith_line (indent st) (fst (make_var (ensure_lib_includes st (ntype n)) (nid n)))
          (operand_text (var_names st) (fst (arith_sources st n None None)))
          (op_symbol (ntype n))
          (operand_text (var_names st) (fst (snd (arith_sources st n None None))))]"
  by (simp add: emit_arith_top_def Let_def emit_line_with_fragments_def arith_fragments_def
      record_map_def arith_line_def)

lemma emit_arith_fn_lines:
  "code_lines (fst (emit_arith_fn (st, sc) n)) =
     code_lines st @
       [arith_line (indent st) (fst (local_make_var sc (nid n)))
          (operand_text (local_var_names sc)
             (fst (arith_sources st n (Some (local_incoming_map sc)) (Some (local_incoming_list sc)))))
          (op_symbol (ntype n))
          (operand_text (local_var_names sc)
             (fst (snd (arith_sources st n (Some (local_incoming_map sc))
                          (Some (local_incoming_list sc))))))]"
  by (simp add: emit_arith_fn_def Let_def emit_line_with_fragments_def arith_fragments_def
      record_map_def arith_line_def)

lemma frag_spans:
  "two_disjoint_spans i
     (tab @ frag_entries l f 0 (arith_fragments ind var a op b i pa pb) @ rest)"
  unfolding two_disjoint_spans_def arith_fragments_def
  apply (rule bexI [where x = "\<lparr>me_node_id = i, me_function = f, start_line = Some l,
            end_line = Some l, start_col = Some (int (length (ind @ ''double '' @ var @ '' = '')) + 1),
            end_col = Some (int (length (ind @ ''double '' @ var @ '' = '')) + int (length a)),
            me_port = Some (port_or pa ''a'')\<rparr>"])
   apply (rule bexI [where x = "\<lparr>me_node_id = i, me_function = f, start_line = Some l,
            end_line = Some l,
            start_col = Some (int (length (ind @ ''double '' @ var @ '' = '')) + int (length a)
                                + int (length ('' '' @ op @ '' '')) + 1),
            end_col = Some (int (length (ind @ ''double '' @ var @ '' = '')) + int (length a)
                                + int (length ('' '' @ op @ '' '')) + int (length b)),
            me_port = Some (port_or pb ''b'')\<rparr>"])
    apply simp
   apply simp
  apply simp
  done

text \<open>The branch for an \<open>Add\<close>, \<open>Sub\<close>, \<open>Mul\<close> or \<open>Div\<close> node, taken alone: whatever the
  emitter state and the node, it leaves in the mapping two entries of that node on one
  start line whose column ranges are distinct and disjoint, one per operand. This holds
  for the branch at top level and for the one in a function body.\<close>

lemma arith_two_disjoint_spans:
  "two_disjoint_spans (nid n) (mapping_entries (emit_arith_top st n))
   \<and> two_disjoint_spans (nid n) (mapping_entries (fst (emit_arith_fn (st, sc) n)))"
proof -
  have top: "\<exists>l f ind var a op b pa pb rest.
      mapping_entries (emit_arith_top st n) =
        mapping_entries st @ frag_entries l f 0 (arith_fragments ind var a op b (nid n) pa pb) @ rest"
    by (simp add: emit_arith_top_def Let_def emit_line_with_fragments_def record_map_def) blast
  have fn: "\<exists>l f ind var a op b pa pb rest.
      mapping_entries (fst (emit_arith_fn (st, sc) n)) =
        mapping_entries st @ frag_entries l f 0 (arith_fragments ind var a op b (nid n) pa pb) @ rest"
    by (simp add: emit_arith_fn_def Let_def emit_line_with_fragments_def record_map_def) blast
  show ?thesis using top fn frag_spans by metis
qed


lemma resolve_none_iff:
  "resolve_input_for_node st n pn (Some k) lmap llist = None \<longleftrightarrow>
     (case lmap of None \<Rightarrow> True | Some m \<Rightarrow> lookup_port m (nid n) pn = None)
     \<and> lookup_port (incoming_by_node st) (nid n) pn = None
     \<and> (case llist of None \<Rightarrow> True | Some l \<Rightarrow> lookup_pos l (nid n) k = None)
     \<and> lookup_pos (incoming_list_by_node st) (nid n) k = None
     \<and> (pn = None \<longrightarrow> length (inputs n) \<le> k)"
  by (auto simp: resolve_input_for_node_def split: option.splits)

lemma lookup_port_None [simp]: "lookup_port m i None = None"
  by (simp add: lookup_port_def)

lemma arith_sources_fst_none:
  "fst (arith_sources st n lmap llist) = None \<longleftrightarrow> unresolved st n lmap llist 0"
proof (cases "\<exists>p0 p1 rest. inputs_of_type (node_defs st) (ntype n) = p0 # p1 # rest")
  case True
  then obtain p0 p1 rest where e: "inputs_of_type (node_defs st) (ntype n) = p0 # p1 # rest"
    by blast
  show ?thesis
    by (auto simp: arith_sources_def e Let_def unresolved_def declared_port_def resolve_none_iff
        split: option.splits)
next
  case False
  then have e: "(case inputs_of_type (node_defs st) (ntype n) of
                   p0 # p1 # rest \<Rightarrow> f p0 p1 rest | _ \<Rightarrow> d) = d" for f and d :: 'z
    by (auto split: list.splits)
  show ?thesis
    by (auto simp: arith_sources_def e Let_def unresolved_def declared_port_def resolve_none_iff
        split: option.splits)
qed

lemma arith_sources_snd_none:
  "fst (snd (arith_sources st n lmap llist)) = None \<longleftrightarrow> unresolved st n lmap llist 1"
proof (cases "\<exists>p0 p1 rest. inputs_of_type (node_defs st) (ntype n) = p0 # p1 # rest")
  case True
  then obtain p0 p1 rest where e: "inputs_of_type (node_defs st) (ntype n) = p0 # p1 # rest"
    by blast
  show ?thesis
    by (auto simp: arith_sources_def e Let_def unresolved_def declared_port_def resolve_none_iff
        split: option.splits)
next
  case False
  then have e: "(case inputs_of_type (node_defs st) (ntype n) of
                   p0 # p1 # rest \<Rightarrow> f p0 p1 rest | _ \<Rightarrow> d) = d" for f and d :: 'z
    by (auto split: list.splits)
  show ?thesis
    by (auto simp: arith_sources_def e Let_def unresolved_def declared_port_def resolve_none_iff
        split: option.splits)
qed

lemma show_nat_digit: "n < 10 \<Longrightarrow> show_nat n = [digit_char n]"
  by (simp add: show_nat.simps)

lemma show_nat_1: "show_nat (Suc 0) = ''1''"
  by code_simp

lemma indent_one: "indent_level st = Suc 0 \<Longrightarrow> indent st = ''    ''"
  by (simp add: indent_def numeral_eq_Suc)

lemma word_char_simps:
  "is_word_char c = (let k = (of_char c :: nat) in
      (48 \<le> k \<and> k \<le> 57) \<or> (97 \<le> k \<and> k \<le> 122) \<or> (65 \<le> k \<and> k \<le> 90) \<or> k = 95)"
  by (simp add: is_word_char_def)

lemma sanitize_examples:
  "sanitize ''a.b'' = ''a_b''" "sanitize ''a_b'' = ''a_b''" "sanitize ''a_b_1'' = ''a_b_1''"
  "sanitize ''add1'' = ''add1''" "sanitize ''s'' = ''s''"
  by (simp_all add: sanitize_def sub_invalid_def is_word_char_def is_digit_def)

lemma make_var_ensure [simp]:
  "fst (make_var (ensure_lib_includes st t) i) = fst (make_var st i)"
  "used_names (snd (make_var (ensure_lib_includes st t) i)) = used_names (snd (make_var st i))"
  by (simp_all add: make_var_def Let_def)

lemma emit_arith_top_fields [simp]:
  "used_names (emit_arith_top st n) = used_names (snd (make_var st (nid n)))"
  "var_names (emit_arith_top st n) = (var_names st)(nid n \<mapsto> fst (make_var st (nid n)))"
  "indent_level (emit_arith_top st n) = indent_level st"
  "node_defs (emit_arith_top st n) = node_defs st"
  "incoming_by_node (emit_arith_top st n) = incoming_by_node st"
  "incoming_list_by_node (emit_arith_top st n) = incoming_list_by_node st"
  by (simp_all add: emit_arith_top_def Let_def emit_line_with_fragments_def record_map_def
      make_var_def)

lemma make_var_name:
  "fst (make_var st i) =
     (case used_names st (''v_'' @ sanitize i) of
        None \<Rightarrow> ''v_'' @ sanitize i
      | Some c \<Rightarrow> if c = 0 then ''v_'' @ sanitize i else ''v_'' @ sanitize i @ ''_'' @ show_nat c)"
  by (simp add: make_var_def Let_def split: option.splits)

lemma make_var_used:
  "used_names (snd (make_var st i)) =
     (used_names st)(''v_'' @ sanitize i \<mapsto>
        (case used_names st (''v_'' @ sanitize i) of None \<Rightarrow> 1
         | Some c \<Rightarrow> if c = 0 then 1 else c + 1))"
  by (simp add: make_var_def Let_def split: option.splits)

lemma no_sources [simp]:
  "node_defs st t = None \<Longrightarrow> incoming_by_node st = Map.empty \<Longrightarrow>
   incoming_list_by_node st = Map.empty \<Longrightarrow> ntype n = t \<Longrightarrow> inputs n = [] \<Longrightarrow>
   arith_sources st n None None = (None, None, None, None)"
  by (simp add: arith_sources_def inputs_of_type_def resolve_input_for_node_def
      lookup_port_def lookup_pos_def)

text \<open>
  Claim C9, evaluated on the code. Three top-level nodes with the pairwise distinct ids
  \<open>a.b\<close>, \<open>a_b\<close> and \<open>a_b_1\<close>: the second use of the base \<open>v_a_b\<close> is named \<open>v_a_b_1\<close>,
  and so is the first use of the base \<open>v_a_b_1\<close>. Two bindings in the one scope have the
  same left-hand name.
\<close>

theorem make_var_name_clash:
  "map (\<lambda>n. nid n) clash_nodes = [''a.b'', ''a_b'', ''a_b_1'']
   \<and> distinct (map (\<lambda>n. nid n) clash_nodes)
   \<and> code_lines (fold (\<lambda>n st. emit_arith_top st n) clash_nodes main_state)
     = [''#include <iostream>'', [], ''int main() {'',
        ''    double v_a_b = 0 + 0;'',
        ''    double v_a_b_1 = 0 + 0;'',
        ''    double v_a_b_1 = 0 + 0;'']"
  by (simp add: clash_nodes_def mk_node_def main_state_def init_emitter_def
      emit_arith_top_lines arith_line_def indent_one make_var_name make_var_used
      sanitize_examples show_nat_1 operand_text_def op_symbol_def)


lemma local_make_var_fields [simp]:
  "fn_name (snd (local_make_var sc i)) = fn_name sc"
  "local_var_names (snd (local_make_var sc i)) = local_var_names sc"
  by (simp_all add: local_make_var_def Let_def)

lemma emit_literal_fn_lines:
  "code_lines (fst (emit_literal_fn (st, sc) n)) =
     code_lines st @
       [literal_line (indent st) (literal_ctype (nvalue n)) (fst (local_make_var sc (nid n)))
          (literal_text (nvalue n))]"
  by (simp add: emit_literal_fn_def Let_def emit_line_with_fragments_def literal_fragments_def
      record_map_def literal_line_def)

lemma sub_invalid_flag: "sub_invalid ''flag'' = ''flag''"
  by (simp add: sub_invalid_def is_word_char_def)

text \<open>
  Claim C1, evaluated on the code. The IR of the duplicate-operand tests has the literal
  \<open>l1\<close> and the node \<open>add1\<close> of type \<open>Add\<close>, whose two inputs are both \<open>l1\<close>. The sort puts
  \<open>l1\<close> first, the branch of a \<open>Literal\<close> raises \<open>NameError\<close>, and \<open>emit_from_graph\<close> ends
  with that error whatever the other branches do: the loop never comes to \<open>add1\<close>, and no
  entry of \<open>add1\<close> is recorded.
\<close>

theorem duplicate_operand_emission_fails:
  "topological_sort (nodes_list (ir_nodes dup_ir)) (ir_edges dup_ir)
     = Inr [mk_node ''l1'' ''Literal'' (PInt 7) [], mk_node ''add1'' ''Add'' PNone [''l1'', ''l1'']]
   \<and> emit_from_graph other main_state (ir_nodes dup_ir) (ir_edges dup_ir)
       = Inl (NameError ''name'')"
proof -
  have nl: "nodes_list (ir_nodes dup_ir) = ir_nodes dup_ir"
    by (simp add: nodes_list_def dup_ir_def mk_node_def id_to_node_def)
  have srt: "topological_sort (ir_nodes dup_ir) (ir_edges dup_ir)
     = Inr [mk_node ''l1'' ''Literal'' (PInt 7) [], mk_node ''add1'' ''Add'' PNone [''l1'', ''l1'']]"
    by (simp add: topological_sort_def build_adj_def dup_ir_def mk_node_def link_def Let_def
        id_to_node_def)
  have lit: "emit_literal_top main_state (mk_node ''l1'' ''Literal'' (PInt 7) [])
               = Inl (NameError ''name'')"
    by (simp add: emit_literal_top_def Let_def)
  have ty: "ntype (mk_node ''l1'' ''Literal'' (PInt 7) []) = ''Literal''"
    by (simp add: mk_node_def)
  show ?thesis
    unfolding emit_from_graph_def nl srt by (simp add: lit ty)
qed

text \<open>
  Claim C3, evaluated on the code. A boolean literal in a function body is bound with
  the type \<open>double\<close> and the text \<open>True\<close>, not with the type \<open>bool\<close>; at top level the branch
  of a \<open>Literal\<close> raises \<open>NameError\<close> and emits no binding at all.
\<close>

theorem literal_bool_is_double:
  "literal_ctype (PBool True) = ''double''
   \<and> code_lines (fst (emit_literal_fn fn_state flag_node))
       = [''#include <iostream>'', [], ''bool f() {'', ''    double v_flag = True;'']
   \<and> emit_literal_top main_state flag_node = Inl (NameError ''name'')"
  by (simp add: fn_state_def flag_node_def mk_node_def emit_literal_fn_lines literal_line_def
      indent_one init_emitter_def init_scope_def local_make_var_def sub_invalid_flag
      emit_literal_top_def Let_def)

lemma dup_sources:
  "arith_sources dup_state dup_add None None = (Some ''l1'', Some ''l1'', None, None)"
  by (simp add: arith_sources_def dup_state_def dup_add_def mk_node_def init_emitter_def
      inputs_of_type_def resolve_input_for_node_def lookup_port_def lookup_pos_def)

text \<open>Scenario 2: the line and the three entries of \<open>add1\<close>.\<close>

lemma duplicate_operand_example:
  "code_lines (emit_arith_top dup_state dup_add)
     = [''int main() {'', ''    double v_add1 = v_l1 + v_l1;'']
   \<and> mapping_entries (emit_arith_top dup_state dup_add)
     = [mk_entry ''add1'' (Some ''a'') 2 21 24, mk_entry ''add1'' (Some ''b'') 2 28 31,
        \<lparr>me_node_id = ''add1'', me_function = None, start_line = Some 2, end_line = Some 2,
         start_col = None, end_col = None, me_port = None\<rparr>]"
proof -
  have v: "fst (make_var dup_state ''add1'') = ''v_add1''"
    by (simp add: make_var_name sanitize_examples dup_state_def init_emitter_def)
  have i: "indent dup_state = ''    ''"
    by (simp add: indent_one dup_state_def init_emitter_def)
  have l: "code_lines dup_state = [''int main() {'']" and m: "mapping_entries dup_state = []"
    and vn: "var_names dup_state ''l1'' = Some ''v_l1''" and nd: "nid dup_add = ''add1''"
    and nt: "ntype dup_add = ''Add''"
    by (simp_all add: dup_state_def init_emitter_def dup_add_def mk_node_def)
  have lines: "code_lines (emit_arith_top dup_state dup_add)
     = [''int main() {'', ''    double v_add1 = v_l1 + v_l1;'']"
    by (simp add: emit_arith_top_lines dup_sources v i l vn nd nt arith_line_def
        operand_text_def op_symbol_def)
  have maps: "mapping_entries (emit_arith_top dup_state dup_add)
     = [mk_entry ''add1'' (Some ''a'') 2 21 24, mk_entry ''add1'' (Some ''b'') 2 28 31,
        \<lparr>me_node_id = ''add1'', me_function = None, start_line = Some 2, end_line = Some 2,
         start_col = None, end_col = None, me_port = None\<rparr>]"
    by (simp add: emit_arith_top_def Let_def emit_line_with_fragments_def record_map_def
        arith_fragments_def dup_sources v i l m vn nd nt operand_text_def op_symbol_def
        mk_entry_def port_or_def)
  show ?thesis using lines maps by simp
qed

text \<open>
  Claim C10, as the code has it. For an arithmetic node in either scope the emission is a
  total function of the state: it appends one line \<open>double v = a OP b;\<close>. An operand has
  no source exactly when no edge names its port, no positional edge has its index and
  the node's \<open>inputs\<close> list is too short; its text is then \<open>0\<close>. A source id that has a
  bound variable gives that variable; a non-empty source id without a bound variable
  gives the id itself; the empty source id without a bound variable gives \<open>0\<close>.
\<close>

theorem arith_operand_default:
  "(fst (arith_sources st n lmap llist) = None \<longleftrightarrow> unresolved st n lmap llist 0)
   \<and> (fst (snd (arith_sources st n lmap llist)) = None \<longleftrightarrow> unresolved st n lmap llist 1)
   \<and> code_lines (emit_arith_top st n) =
       code_lines st @
         [arith_line (indent st) (fst (make_var st (nid n)))
            (operand_text (var_names st) (fst (arith_sources st n None None)))
            (op_symbol (ntype n))
            (operand_text (var_names st) (fst (snd (arith_sources st n None None))))]
   \<and> code_lines (fst (emit_arith_fn (st, sc) n)) =
       code_lines st @
         [arith_line (indent st) (fst (local_make_var sc (nid n)))
            (operand_text (local_var_names sc)
               (fst (arith_sources st n (Some (local_incoming_map sc))
                       (Some (local_incoming_list sc)))))
            (op_symbol (ntype n))
            (operand_text (local_var_names sc)
               (fst (snd (arith_sources st n (Some (local_incoming_map sc))
                            (Some (local_incoming_list sc))))))]
   \<and> operand_text names None = ''0''
   \<and> (names s = None \<and> s \<noteq> [] \<longrightarrow> operand_text names (Some s) = s)
   \<and> (names '''' = None \<longrightarrow> operand_text names (Some '''') = ''0'')
   \<and> (names s = Some v \<longrightarrow> operand_text names (Some s) = v)"
  using arith_sources_fst_none [of st n lmap llist] arith_sources_snd_none [of st n lmap llist]
    emit_arith_top_lines [of st n] emit_arith_fn_lines [of st sc n]
  by (simp add: operand_text_def)

lemma empty_id_sources:
  "arith_sources main_state (mk_node ''s'' ''Add'' PNone ['''', ''x'']) None None
     = (Some '''', Some ''x'', None, None)"
  by (simp add: arith_sources_def main_state_def mk_node_def init_emitter_def
      inputs_of_type_def resolve_input_for_node_def lookup_port_def lookup_pos_def)

text \<open>The first operand resolves to the empty id, which has no bound variable: the
  operand emitted is \<open>0\<close>, not the (empty) id text.\<close>

theorem empty_source_id_counterexample:
  "fst (arith_sources main_state (mk_node ''s'' ''Add'' PNone ['''', ''x'']) None None) = Some ''''
   \<and> var_names main_state '''' = None
   \<and> code_lines (emit_arith_top main_state (mk_node ''s'' ''Add'' PNone ['''', ''x'']))
     = [''#include <iostream>'', [], ''int main() {'', ''    double v_s = 0 + x;'']"
proof -
  let ?n = "mk_node ''s'' ''Add'' PNone ['''', ''x'']"
  have unb: "var_names main_state '''' = None" "var_names main_state ''x'' = None"
    by (simp_all add: main_state_def init_emitter_def)
  have v: "fst (make_var main_state (nid ?n)) = ''v_s''"
    by (simp add: make_var_name sanitize_examples main_state_def init_emitter_def mk_node_def)
  have i: "indent main_state = ''    ''"
    by (simp add: indent_one main_state_def init_emitter_def)
  have l: "code_lines main_state = [''#include <iostream>'', [], ''int main() {'']"
    by (simp add: main_state_def init_emitter_def)
  have t: "op_symbol (ntype ?n) = ''+''" by (simp add: op_symbol_def mk_node_def)
  show ?thesis
    by (simp add: empty_id_sources emit_arith_top_lines arith_line_def operand_text_def
        unb v i l t)
qed

theorem arith_operand_default_witness:
  "code_lines (emit_arith_top main_state (mk_node ''s'' ''Add'' PNone [''x'']))
     = [''#include <iostream>'', [], ''int main() {'', ''    double v_s = x + 0;'']"
proof -
  let ?n = "mk_node ''s'' ''Add'' PNone [''x'']"
  have src: "arith_sources main_state ?n None None = (Some ''x'', None, None, None)"
    by (simp add: arith_sources_def main_state_def mk_node_def init_emitter_def
        inputs_of_type_def resolve_input_for_node_def lookup_port_def lookup_pos_def)
  have unb: "var_names main_state ''x'' = None \<and> ''x'' \<noteq> []"
    by (simp add: main_state_def init_emitter_def)
  have v: "fst (make_var main_state (nid ?n)) = ''v_s''"
    by (simp add: make_var_name sanitize_examples main_state_def init_emitter_def mk_node_def)
  have i: "indent main_state = ''    ''"
    by (simp add: indent_one main_state_def init_emitter_def)
  have l: "code_lines main_state = [''#include <iostream>'', [], ''int main() {'']"
    by (simp add: main_state_def init_emitter_def)
  have t: "op_symbol (ntype ?n) = ''+''" by (simp add: op_symbol_def mk_node_def)
  from arith_operand_default [of main_state ?n None None undefined "var_names main_state" "''x''" undefined]
  have line: "code_lines (emit_arith_top main_state ?n) =
       code_lines main_state @
         [arith_line (indent main_state) (fst (make_var main_state (nid ?n)))
            (operand_text (var_names main_state) (fst (arith_sources main_state ?n None None)))
            (op_symbol (ntype ?n))
            (operand_text (var_names main_state) (fst (snd (arith_sources main_state ?n None None))))]"
    and zero: "operand_text (var_names main_state) None = ''0''"
    and raw: "var_names main_state ''x'' = None \<and> ''x'' \<noteq> [] \<longrightarrow>
              operand_text (var_names main_state) (Some ''x'') = ''x''"
    by blast+
  show ?thesis
    using raw unb zero by (simp add: line src v i l t arith_line_def)
qed

text \<open>The entries that the emitter records are 1-based: a fragment entry starts at
  \<open>offset + 1\<close> on the line just appended, and a coarse entry starts at a line number that
  is at least 1.\<close>

lemma frag_entries_one_based:
  "0 \<le> off \<Longrightarrow> 1 \<le> l \<Longrightarrow> \<forall>m\<in>set (frag_entries l f off frags). one_based m"
proof (induction frags arbitrary: off)
  case Nil
  then show ?case by simp
next
  case (Cons fr frags)
  obtain tx mk where fr: "fr = (tx, mk)" by (cases fr)
  have "0 \<le> off + int (length tx)" using Cons.prems by simp
  then have rest: "\<forall>m\<in>set (frag_entries l f (off + int (length tx)) frags). one_based m"
    using Cons.IH Cons.prems by blast
  show ?case
    using rest Cons.prems by (auto simp: fr one_based_def split: option.splits)
qed

lemma emit_line_one_based:
  assumes "\<forall>m\<in>set (mapping_entries st). one_based m"
  shows "\<forall>m\<in>set (mapping_entries (snd (emit_line_with_fragments st frags f))). one_based m"
proof -
  have "\<forall>m\<in>set (frag_entries (1 + int (length (code_lines st))) f 0 frags). one_based m"
    by (rule frag_entries_one_based) simp_all
  then show ?thesis using assms
    by (auto simp: emit_line_with_fragments_def Let_def)
qed

lemma record_map_one_based:
  assumes "\<forall>m\<in>set (mapping_entries st). one_based m" and "1 \<le> s"
  shows "\<forall>m\<in>set (mapping_entries (record_map st i s e f p)). one_based m"
  using assms by (auto simp: record_map_def one_based_def)

subsection \<open>Normalization\<close>

lemma add_unique_set [simp]: "set (add_unique x xs) = insert x (set xs)"
  by (auto simp: add_unique_def)

lemma link_edges_subset:
  "(\<forall>i. set (fst acc i) \<subseteq> ids) \<Longrightarrow> (\<forall>i. set (snd acc i) \<subseteq> ids) \<Longrightarrow>
   set (fst (link_edges ids es acc) i) \<subseteq> ids \<and> set (snd (link_edges ids es acc) i) \<subseteq> ids"
proof (induction es arbitrary: acc)
  case Nil
  then show ?case by simp
next
  case (Cons e es)
  show ?case
  proof (cases "efrom e \<notin> ids \<or> eto e \<notin> ids")
    case True
    then show ?thesis using Cons by simp
  next
    case False
    let ?acc = "((fst acc)(eto e := add_unique (efrom e) (fst acc (eto e))),
                 (snd acc)(efrom e := add_unique (eto e) (snd acc (efrom e))))"
    have a: "\<forall>i. set (fst ?acc i) \<subseteq> ids" using Cons.prems False by auto
    have b: "\<forall>i. set (snd ?acc i) \<subseteq> ids" using Cons.prems False by auto
    have "set (fst (link_edges ids es ?acc) i) \<subseteq> ids
          \<and> set (snd (link_edges ids es ?acc) i) \<subseteq> ids"
      by (rule Cons.IH [OF a b])
    then show ?thesis using False by simp
  qed
qed

lemma collect_outputs_subset:
  "(\<forall>i. set (om i) \<subseteq> ids) \<Longrightarrow> (\<forall>e\<in>set es. eto e \<in> ids) \<Longrightarrow>
   set (collect_outputs es om i) \<subseteq> ids"
proof (induction es arbitrary: om)
  case Nil
  then show ?case by simp
next
  case (Cons e es)
  let ?om = "om(efrom e := add_unique (eto e) (om (efrom e)))"
  have a: "\<forall>i. set (?om i) \<subseteq> ids"
    using Cons.prems by auto
  have b: "\<forall>e\<in>set es. eto e \<in> ids" using Cons.prems by simp
  have "set (collect_outputs es ?om i) \<subseteq> ids"
    by (rule Cons.IH [OF a b])
  then show ?case by simp
qed

lemma dedup_edges_subset: "set (dedup_edges seen es) \<subseteq> set es"
  by (induction es arbitrary: seen) auto

lemma synth_edges_known:
  "e \<in> set (synth_edges (set (map nid nodes)) nodes) \<Longrightarrow>
   efrom e \<in> set (map nid nodes) \<and> eto e \<in> set (map nid nodes)"
  by (auto simp: synth_edges_def)

lemma ids_of_normalize [simp]: "ids_of (normalize_ir doc) = ids_of doc"
  by (auto simp: ids_of_def normalize_ir_def Let_def image_iff)

text \<open>
  Claim C5, as the code has it. When the document has no edges, every edge of the
  synthesized edge list has both ends among the nodes. When the document has edges, the
  edge list is returned as it was: an edge with an unknown end is skipped only while the
  inputs and outputs are rebuilt, so that no node's inputs or outputs name an unknown
  node. In both forms the outputs of every node name nodes of the document only.
\<close>

theorem normalize_ir_edges:
  "(ir_edges doc = [] \<longrightarrow>
      (\<forall>e\<in>set (ir_edges (normalize_ir doc)). known_edge (normalize_ir doc) e))
   \<and> (ir_edges doc \<noteq> [] \<longrightarrow> ir_edges (normalize_ir doc) = ir_edges doc)
   \<and> (\<forall>n\<in>set (ir_nodes (normalize_ir doc)).
         set (outputs n) \<subseteq> ids_of doc
         \<and> (ir_edges doc \<noteq> [] \<longrightarrow> set (inputs n) \<subseteq> ids_of doc))"
proof -
  let ?ids = "set (map nid (ir_nodes doc))"
  have A: "ir_edges doc = [] \<longrightarrow>
      (\<forall>e\<in>set (ir_edges (normalize_ir doc)). known_edge (normalize_ir doc) e)"
  proof (intro impI ballI)
    fix e assume emp: "ir_edges doc = []" and e: "e \<in> set (ir_edges (normalize_ir doc))"
    from e emp have "e \<in> set (dedup_edges [] (synth_edges ?ids (ir_nodes doc)))"
      by (simp add: normalize_ir_def Let_def)
    then have "e \<in> set (synth_edges ?ids (ir_nodes doc))"
      using dedup_edges_subset by blast
    then have "efrom e \<in> ?ids \<and> eto e \<in> ?ids" by (rule synth_edges_known)
    then show "known_edge (normalize_ir doc) e"
      by (simp add: known_edge_def) (simp add: ids_of_def)
  qed
  have B: "ir_edges doc \<noteq> [] \<longrightarrow> ir_edges (normalize_ir doc) = ir_edges doc"
    by (simp add: normalize_ir_def Let_def)
  have C: "\<forall>n\<in>set (ir_nodes (normalize_ir doc)).
         set (outputs n) \<subseteq> ids_of doc
         \<and> (ir_edges doc \<noteq> [] \<longrightarrow> set (inputs n) \<subseteq> ids_of doc)"
  proof (cases "ir_edges doc = []")
    case True
    let ?u = "dedup_edges [] (synth_edges ?ids (ir_nodes doc))"
    have k: "\<forall>e\<in>set ?u. eto e \<in> ?ids"
      using dedup_edges_subset synth_edges_known by blast
    have "\<And>i. set (collect_outputs ?u (\<lambda>i. []) i) \<subseteq> ?ids"
      by (rule collect_outputs_subset) (use k in auto)
    then show ?thesis using True
      by (auto simp: normalize_ir_def Let_def ids_of_def)
  next
    case False
    have "\<And>i. set (fst (link_edges ?ids (ir_edges doc) (\<lambda>i. [], \<lambda>i. [])) i) \<subseteq> ?ids
             \<and> set (snd (link_edges ?ids (ir_edges doc) (\<lambda>i. [], \<lambda>i. [])) i) \<subseteq> ?ids"
      by (rule link_edges_subset) auto
    then show ?thesis using False
      by (auto simp: normalize_ir_def Let_def ids_of_def)
  qed
  show ?thesis using A B C by blast
qed

theorem normalize_ir_edges_witness:
  "known_edge (normalize_ir sum_ir) (mk_edge ''L3'' ''A'' None)
   \<and> ir_edges (normalize_ir dangling_ir) = ir_edges dangling_ir"
proof -
  have e: "ir_edges sum_ir = []" by (simp add: sum_ir_def)
  have m: "mk_edge ''L3'' ''A'' None \<in> set (ir_edges (normalize_ir sum_ir))"
    by (simp add: normalize_ir_def sum_ir_def mk_node_def mk_edge_def synth_edges_def)
  have d: "ir_edges dangling_ir \<noteq> []" by (simp add: dangling_ir_def)
  from normalize_ir_edges [of sum_ir] e m
  have a: "known_edge (normalize_ir sum_ir) (mk_edge ''L3'' ''A'' None)" by blast
  from normalize_ir_edges [of dangling_ir] d
  have b: "ir_edges (normalize_ir dangling_ir) = ir_edges dangling_ir" by blast
  show ?thesis using a b by simp
qed

text \<open>With edges present, the edge to the unknown node \<open>Z\<close> is still in the edge list
  after normalization.\<close>

theorem dangling_edge_counterexample:
  "ir_edges (normalize_ir dangling_ir) = [mk_edge ''A'' ''Z'' None]
   \<and> map nid (ir_nodes (normalize_ir dangling_ir)) = [''A'']
   \<and> \<not> known_edge (normalize_ir dangling_ir) (mk_edge ''A'' ''Z'' None)"
  by (simp add: normalize_ir_def dangling_ir_def mk_edge_def mk_node_def known_edge_def
      ids_of_def)

text \<open>The IR of the duplicate-operand tests: the first normalization keeps the inputs
  \<open>l1, l1\<close> of \<open>add1\<close> and synthesizes one edge; the second finds that edge and rebuilds the
  inputs as \<open>l1\<close> alone.\<close>

theorem normalize_not_idempotent_counterexample:
  "inputs (ir_nodes (normalize_ir dup_ir) ! 1) = [''l1'', ''l1'']
   \<and> inputs (ir_nodes (normalize_ir (normalize_ir dup_ir)) ! 1) = [''l1'']
   \<and> normalize_ir (normalize_ir dup_ir) \<noteq> normalize_ir dup_ir"
proof -
  have one: "normalize_ir dup_ir =
     \<lparr>ir_imports = [],
      ir_nodes = [\<lparr>nid = ''l1'', ntype = ''Literal'', nvalue = PInt 7, inputs = [],
                   outputs = [''add1'']\<rparr>,
                  \<lparr>nid = ''add1'', ntype = ''Add'', nvalue = PNone, inputs = [''l1'', ''l1''],
                   outputs = []\<rparr>],
      ir_edges = [\<lparr>efrom = ''l1'', eto = ''add1'', fromPort = None, toPort = None\<rparr>]\<rparr>"
    by (simp add: normalize_ir_def dup_ir_def mk_node_def synth_edges_def add_unique_def)
  have two: "inputs (ir_nodes (normalize_ir (normalize_ir dup_ir)) ! 1) = [''l1'']"
    unfolding one by (simp add: normalize_ir_def add_unique_def)
  have first: "inputs (ir_nodes (normalize_ir dup_ir) ! 1) = [''l1'', ''l1'']"
    unfolding one by simp
  have "normalize_ir (normalize_ir dup_ir) \<noteq> normalize_ir dup_ir"
  proof
    assume "normalize_ir (normalize_ir dup_ir) = normalize_ir dup_ir"
    then have "inputs (ir_nodes (normalize_ir (normalize_ir dup_ir)) ! 1)
               = inputs (ir_nodes (normalize_ir dup_ir) ! 1)"
      by simp
    then show False using two first by simp
  qed
  then show ?thesis using two first by simp
qed


lemma nid_upd [simp]:
  "nid (n\<lparr>outputs := b\<rparr>) = nid n" "nid (n\<lparr>inputs := a\<rparr>) = nid n"
  by simp_all

lemma nid_image_map:
  "(\<And>n. nid (h n) = nid n) \<Longrightarrow> nid ` set (map h ns) = nid ` set ns"
  by (simp add: image_image)

lemma synth_edges_map_outputs:
  "synth_edges ids (map (\<lambda>n. n\<lparr>outputs := f n\<rparr>) ns) = synth_edges ids ns"
  by (simp add: synth_edges_def comp_def)

lemma normalize_ir_on_absent:
  "normalize_ir \<lparr>ir_imports = i, ir_nodes = ns, ir_edges = []\<rparr> =
     \<lparr>ir_imports = i,
      ir_nodes = map (\<lambda>n. n\<lparr>outputs :=
                     collect_outputs (dedup_edges [] (synth_edges (nid ` set ns) ns)) (\<lambda>i. [])
                       (nid n)\<rparr>) ns,
      ir_edges = dedup_edges [] (synth_edges (nid ` set ns) ns)\<rparr>"
  by (simp add: normalize_ir_def Let_def)

lemma normalize_ir_on_present:
  "es \<noteq> [] \<Longrightarrow>
   normalize_ir \<lparr>ir_imports = i, ir_nodes = ns, ir_edges = es\<rparr> =
     \<lparr>ir_imports = i,
      ir_nodes = map (\<lambda>n. n\<lparr>inputs := fst (link_edges (nid ` set ns) es (\<lambda>i. [], \<lambda>i. [])) (nid n),
                            outputs := snd (link_edges (nid ` set ns) es (\<lambda>i. [], \<lambda>i. [])) (nid n)\<rparr>)
                   ns,
      ir_edges = es\<rparr>"
  by (simp add: normalize_ir_def Let_def)

lemma link_edges_snd:
  "\<forall>e\<in>set es. efrom e \<in> ids \<and> eto e \<in> ids \<Longrightarrow>
   snd (link_edges ids es acc) = collect_outputs es (snd acc)"
  by (induction es arbitrary: acc) auto

lemma link_edges_fst:
  "\<forall>e\<in>set es. efrom e \<in> ids \<and> eto e \<in> ids \<Longrightarrow>
   fst (link_edges ids es acc) t
     = fold add_unique (map efrom (filter (\<lambda>e. eto e = t) es)) (fst acc t)"
  by (induction es arbitrary: acc) auto

lemma fold_add_unique_distinct:
  "distinct (acc @ xs) \<Longrightarrow> fold add_unique xs acc = acc @ xs"
  by (induction xs arbitrary: acc) (auto simp: add_unique_def)

lemma dedup_edges_distinct:
  "distinct (map (\<lambda>e. (efrom e, eto e)) es) \<Longrightarrow>
   (\<forall>e\<in>set es. (efrom e, eto e) \<notin> set seen) \<Longrightarrow> dedup_edges seen es = es"
proof (induction es arbitrary: seen)
  case Nil
  then show ?case by simp
next
  case (Cons e es)
  have d: "distinct (map (\<lambda>e. (efrom e, eto e)) es)" using Cons.prems by simp
  have n: "\<forall>x\<in>set es. (efrom x, eto x) \<notin> set ((efrom e, eto e) # seen)"
    using Cons.prems by (auto simp: image_iff)
  have "dedup_edges ((efrom e, eto e) # seen) es = es" by (rule Cons.IH [OF d n])
  then show ?case using Cons.prems by simp
qed

lemma synth_edges_Cons:
  "synth_edges ids (n # ns) =
     map (\<lambda>inp. \<lparr>efrom = inp, eto = nid n, fromPort = None, toPort = None\<rparr>)
         (filter (\<lambda>inp. inp \<in> ids) (inputs n)) @ synth_edges ids ns"
  by (simp add: synth_edges_def)

lemma synth_edges_to: "e \<in> set (synth_edges ids ns) \<Longrightarrow> eto e \<in> nid ` set ns"
  by (auto simp: synth_edges_def)

lemma synth_keys_distinct:
  "distinct (map nid ns) \<Longrightarrow> \<forall>n\<in>set ns. distinct (inputs n) \<Longrightarrow>
   distinct (map (\<lambda>e. (efrom e, eto e)) (synth_edges ids ns))"
proof (induction ns)
  case Nil
  then show ?case by (simp add: synth_edges_def)
next
  case (Cons n ns)
  have blk: "distinct (map (\<lambda>e. (efrom e, eto e))
               (map (\<lambda>inp. \<lparr>efrom = inp, eto = nid n, fromPort = None, toPort = None\<rparr>)
                  (filter (\<lambda>inp. inp \<in> ids) (inputs n))))"
    using Cons.prems by (simp add: comp_def distinct_map inj_on_def)
  have rest: "distinct (map (\<lambda>e. (efrom e, eto e)) (synth_edges ids ns))"
    using Cons by simp
  have disj: "\<And>e. e \<in> set (synth_edges ids ns) \<Longrightarrow> eto e \<noteq> nid n"
  proof -
    fix e assume "e \<in> set (synth_edges ids ns)"
    then have "eto e \<in> nid ` set ns" by (rule synth_edges_to)
    moreover have "nid n \<notin> nid ` set ns" using Cons.prems by simp
    ultimately show "eto e \<noteq> nid n" by auto
  qed
  have sep: "set (map (\<lambda>e. (efrom e, eto e))
               (map (\<lambda>inp. \<lparr>efrom = inp, eto = nid n, fromPort = None, toPort = None\<rparr>)
                  (filter (\<lambda>inp. inp \<in> ids) (inputs n))))
             \<inter> set (map (\<lambda>e. (efrom e, eto e)) (synth_edges ids ns)) = {}"
  proof (rule ccontr)
    assume "\<not> ?thesis"
    then obtain k where k1: "k \<in> set (map (\<lambda>e. (efrom e, eto e))
               (map (\<lambda>inp. \<lparr>efrom = inp, eto = nid n, fromPort = None, toPort = None\<rparr>)
                  (filter (\<lambda>inp. inp \<in> ids) (inputs n))))"
      and k2: "k \<in> set (map (\<lambda>e. (efrom e, eto e)) (synth_edges ids ns))"
      by blast
    from k1 have "snd k = nid n" by auto
    moreover from k2 obtain e where "e \<in> set (synth_edges ids ns)" "snd k = eto e" by auto
    ultimately show False using disj by metis
  qed
  show ?case
    unfolding synth_edges_Cons map_append distinct_append using blk rest sep by blast
qed

lemma synth_sources:
  "distinct (map nid ns) \<Longrightarrow> n \<in> set ns \<Longrightarrow>
   map efrom (filter (\<lambda>e. eto e = nid n) (synth_edges ids ns))
     = filter (\<lambda>inp. inp \<in> ids) (inputs n)"
proof (induction ns)
  case Nil
  then show ?case by simp
next
  case (Cons m ns)
  show ?case
  proof (cases "m = n")
    case True
    have "\<And>e. e \<in> set (synth_edges ids ns) \<Longrightarrow> eto e \<noteq> nid n"
    proof -
      fix e assume "e \<in> set (synth_edges ids ns)"
      then have "eto e \<in> nid ` set ns" by (rule synth_edges_to)
      moreover have "nid n \<notin> nid ` set ns" using Cons.prems True by simp
      ultimately show "eto e \<noteq> nid n" by auto
    qed
    then have "filter (\<lambda>e. eto e = nid n) (synth_edges ids ns) = []"
      by (auto simp: filter_empty_conv)
    then show ?thesis using True by (simp add: synth_edges_Cons comp_def)
  next
    case False
    then have n: "n \<in> set ns" and ne: "nid m \<noteq> nid n" using Cons.prems by auto
    have "map efrom (filter (\<lambda>e. eto e = nid n) (synth_edges ids ns))
            = filter (\<lambda>inp. inp \<in> ids) (inputs n)"
      using Cons.IH n Cons.prems by simp
    then show ?thesis using ne by (simp add: synth_edges_Cons comp_def)
  qed
qed

text \<open>
  Claim C4, as the code has it. Normalizing twice gives the same document as normalizing
  once whenever the document has edges, and also when it has none and its node ids are
  pairwise distinct and every node's inputs are duplicate-free and name nodes of the
  document.
\<close>

theorem normalize_ir_idempotent:
  assumes "ir_edges doc \<noteq> [] \<or> clean_inputs doc"
  shows "normalize_ir (normalize_ir doc) = normalize_ir doc"
proof -
  obtain i ns es where doc: "doc = \<lparr>ir_imports = i, ir_nodes = ns, ir_edges = es\<rparr>"
    by (cases doc) auto
  define ids where "ids = nid ` set ns"
  show ?thesis
  proof (cases "es = []")
    case False
    define f where "f = (\<lambda>n::node. n\<lparr>inputs := fst (link_edges ids es (\<lambda>i. [], \<lambda>i. [])) (nid n),
                              outputs := snd (link_edges ids es (\<lambda>i. [], \<lambda>i. [])) (nid n)\<rparr>)"
    have nf: "\<And>n. nid (f n) = nid n" by (simp add: f_def)
    have one: "normalize_ir doc = \<lparr>ir_imports = i, ir_nodes = map f ns, ir_edges = es\<rparr>"
      unfolding doc normalize_ir_on_present [OF False] f_def ids_def by (rule refl)
    have ids2: "nid ` set (map f ns) = ids"
      unfolding ids_def by (rule nid_image_map [OF nf])
    have two: "normalize_ir \<lparr>ir_imports = i, ir_nodes = map f ns, ir_edges = es\<rparr>
               = \<lparr>ir_imports = i, ir_nodes = map f (map f ns), ir_edges = es\<rparr>"
      unfolding normalize_ir_on_present [OF False] ids2 unfolding f_def by (rule refl)
    have ff: "map f (map f ns) = map f ns" by (simp add: f_def)
    show ?thesis unfolding one two ff by (rule refl)
  next
    case True
    define u where "u = dedup_edges [] (synth_edges ids ns)"
    define g where "g = (\<lambda>n::node. n\<lparr>outputs := collect_outputs u (\<lambda>i. []) (nid n)\<rparr>)"
    have ng: "\<And>n. nid (g n) = nid n" by (simp add: g_def)
    have one: "normalize_ir doc = \<lparr>ir_imports = i, ir_nodes = map g ns, ir_edges = u\<rparr>"
      unfolding doc True normalize_ir_on_absent g_def u_def ids_def by (rule refl)
    have ids2: "nid ` set (map g ns) = ids"
      unfolding ids_def by (rule nid_image_map [OF ng])
    have gg: "map g (map g ns) = map g ns" by (simp add: g_def)
    show ?thesis
    proof (cases "u = []")
      case True
      have syn: "synth_edges ids (map g ns) = synth_edges ids ns"
        unfolding g_def by (rule synth_edges_map_outputs)
      have two: "normalize_ir \<lparr>ir_imports = i, ir_nodes = map g ns, ir_edges = []\<rparr>
                 = \<lparr>ir_imports = i, ir_nodes = map g (map g ns), ir_edges = u\<rparr>"
        unfolding normalize_ir_on_absent ids2 syn unfolding g_def u_def by (rule refl)
      show ?thesis unfolding one using two gg True by simp
    next
      case False
      have clean: "clean_inputs doc" using assms \<open>es = []\<close> doc by simp
      have dn: "distinct (map nid ns)"
        and di: "\<forall>n\<in>set ns. distinct (inputs n)"
        and ki: "\<forall>n\<in>set ns. \<forall>x\<in>set (inputs n). x \<in> ids"
        using clean by (auto simp: clean_inputs_def list_all_iff ids_of_def doc ids_def)
      have ueq: "u = synth_edges ids ns"
        unfolding u_def
        by (rule dedup_edges_distinct) (use synth_keys_distinct [OF dn di] in auto)
      have valid: "\<forall>e\<in>set u. efrom e \<in> ids \<and> eto e \<in> ids"
        unfolding ueq ids_def by (auto simp: synth_edges_def)
      define maps where "maps = link_edges ids u (\<lambda>i. [], \<lambda>i. [])"
      have om: "snd maps = collect_outputs u (\<lambda>i. [])"
        unfolding maps_def using link_edges_snd [OF valid] by simp
      have im: "fst maps (nid n) = inputs n" if n: "n \<in> set ns" for n
      proof -
        have f: "filter (\<lambda>inp. inp \<in> ids) (inputs n) = inputs n"
          using ki n by (auto simp: filter_id_conv)
        have "fst maps (nid n) = fold add_unique (map efrom (filter (\<lambda>e. eto e = nid n) u)) []"
          unfolding maps_def
          using link_edges_fst [OF valid, of "(\<lambda>i. [], \<lambda>i. [])" "nid n"] by simp
        also have "\<dots> = fold add_unique (inputs n) []"
          unfolding ueq using synth_sources [OF dn n, of ids] f by simp
        also have "\<dots> = inputs n"
          using fold_add_unique_distinct [of "[]" "inputs n"] di n by simp
        finally show ?thesis .
      qed
      define f where "f = (\<lambda>n::node. n\<lparr>inputs := fst maps (nid n), outputs := snd maps (nid n)\<rparr>)"
      have two: "normalize_ir \<lparr>ir_imports = i, ir_nodes = map g ns, ir_edges = u\<rparr>
                 = \<lparr>ir_imports = i, ir_nodes = map f (map g ns), ir_edges = u\<rparr>"
        unfolding normalize_ir_on_present [OF False] ids2 unfolding f_def maps_def by (rule refl)
      have fg: "map f (map g ns) = map g ns"
        using im om by (auto simp: f_def g_def)
      show ?thesis unfolding one two fg by (rule refl)
    qed
  qed
qed

theorem normalize_ir_idempotent_witness:
  "normalize_ir (normalize_ir sum_ir) = normalize_ir sum_ir"
proof -
  have "clean_inputs sum_ir"
    by (simp add: clean_inputs_def sum_ir_def mk_node_def ids_of_def)
  then have "ir_edges sum_ir \<noteq> [] \<or> clean_inputs sum_ir" by simp
  then show ?thesis by (rule normalize_ir_idempotent)
qed

subsection \<open>Topological sort: building the adjacency\<close>

lemma fold_link_fst:
  "fst (fold (\<lambda>p. link (fst p) (snd p)) G g) n = fst g n @ adj_of G n"
  by (induction G arbitrary: g) (auto simp: link_def adj_of_def)

lemma fold_link_snd:
  "snd (fold (\<lambda>p. link (fst p) (snd p)) G g) m = snd g m + indeg_of G m"
  by (induction G arbitrary: g) (auto simp: link_def indeg_of_def)

lemma add_edges_ok:
  "\<forall>e\<in>set es. efrom e \<in> set ids \<and> eto e \<in> set ids \<Longrightarrow>
   add_edges ids es g = Inr (fold (\<lambda>p. link (fst p) (snd p)) (map (\<lambda>e. (efrom e, eto e)) es) g)"
  by (induction es arbitrary: g) auto

lemma add_inputs_ok:
  "\<forall>x\<in>set inps. x \<in> set ids \<Longrightarrow>
   add_inputs ids i inps g = Inr (fold (\<lambda>p. link (fst p) (snd p)) (map (\<lambda>x. (x, i)) inps) g)"
  by (induction inps arbitrary: g) auto

lemma add_node_inputs_ok:
  "\<forall>n\<in>set ns. \<forall>x\<in>set (inputs n). x \<in> set ids \<Longrightarrow>
   add_node_inputs ids ns g =
     Inr (fold (\<lambda>p. link (fst p) (snd p))
            (concat (map (\<lambda>n. map (\<lambda>x. (x, nid n)) (inputs n)) ns)) g)"
  by (induction ns arbitrary: g) (auto simp: add_inputs_ok)

lemma build_adj_ok:
  assumes "endpoints_exist nodes edges"
  shows "build_adj nodes edges =
           Inr (adj_of (graph_edges nodes edges), indeg_of (graph_edges nodes edges))"
proof -
  let ?G = "graph_edges nodes edges"
  let ?ids = "map nid nodes"
  have ends: "\<forall>p\<in>set ?G. fst p \<in> set ?ids \<and> snd p \<in> set ?ids"
    using assms by (simp add: endpoints_exist_def list_all_iff)
  have fin: "fold (\<lambda>p. link (fst p) (snd p)) ?G (\<lambda>i. [], \<lambda>i. 0) = (adj_of ?G, indeg_of ?G)"
    by (rule prod_eqI) (auto simp: fold_link_fst fold_link_snd)
  show ?thesis
  proof (cases "edges = []")
    case False
    have "\<forall>e\<in>set edges. efrom e \<in> set ?ids \<and> eto e \<in> set ?ids"
      using ends False by (auto simp: graph_edges_def)
    then have "build_adj nodes edges =
       Inr (fold (\<lambda>p. link (fst p) (snd p)) (map (\<lambda>e. (efrom e, eto e)) edges) (\<lambda>i. [], \<lambda>i. 0))"
      using False by (simp add: build_adj_def add_edges_ok)
    then show ?thesis using fin False by (simp add: graph_edges_def)
  next
    case True
    have "\<forall>n\<in>set nodes. \<forall>x\<in>set (inputs n). x \<in> set ?ids"
      using ends True by (auto simp: graph_edges_def)
    then have "build_adj nodes edges =
       Inr (fold (\<lambda>p. link (fst p) (snd p))
              (concat (map (\<lambda>n. map (\<lambda>x. (x, nid n)) (inputs n)) nodes)) (\<lambda>i. [], \<lambda>i. 0))"
      using True by (simp add: build_adj_def add_node_inputs_ok)
    then show ?thesis using fin True by (simp add: graph_edges_def)
  qed
qed

subsection \<open>Topological sort: the inner loop\<close>

lemma relax_result:
  assumes "set ms \<subseteq> set keys"
    and "\<forall>x\<in>set ms. int (count_list ms x) \<le> indeg x"
  shows "\<exists>new. relax keys ms (indeg, q) = Inr (\<lambda>x. indeg x - int (count_list ms x), q @ new)
           \<and> distinct new
           \<and> set new = {x \<in> set ms. indeg x - int (count_list ms x) = 0}"
  using assms
proof (induction ms arbitrary: indeg q)
  case Nil
  then show ?case by simp
next
  case (Cons m ms)
  let ?i = "indeg(m := indeg m - 1)"
  let ?q = "if indeg m - 1 = 0 then q @ [m] else q"
  have mk: "m \<in> set keys" and sub: "set ms \<subseteq> set keys" using Cons.prems by auto
  have bound: "\<forall>x\<in>set ms. int (count_list ms x) \<le> ?i x"
    using Cons.prems(2) by auto
  from Cons.IH [OF sub bound, of ?q]
  obtain new where run: "relax keys ms (?i, ?q) = Inr (\<lambda>x. ?i x - int (count_list ms x), ?q @ new)"
    and dn: "distinct new"
    and sn: "set new = {x \<in> set ms. ?i x - int (count_list ms x) = 0}"
    by blast
  have fin: "(\<lambda>x. ?i x - int (count_list ms x)) = (\<lambda>x. indeg x - int (count_list (m # ms) x))"
    by (rule ext) simp
  have "relax keys (m # ms) (indeg, q) = relax keys ms (?i, ?q)"
    using mk by simp
  also have "\<dots> = Inr (\<lambda>x. ?i x - int (count_list ms x), ?q @ new)" by (rule run)
  also have "\<dots> = Inr (\<lambda>x. indeg x - int (count_list (m # ms) x), ?q @ new)"
    by (simp only: fin)
  finally have step: "relax keys (m # ms) (indeg, q)
                      = Inr (\<lambda>x. indeg x - int (count_list (m # ms) x), ?q @ new)" .
  have snew: "set new = {x \<in> set ms. indeg x - int (count_list (m # ms) x) = 0}"
    using sn by auto
  show ?case
  proof (cases "indeg m - 1 = 0")
    case True
    have "int (count_list (m # ms) m) \<le> indeg m" using Cons.prems(2) by simp
    then have c0: "count_list ms m = 0" using True by simp
    then have mn: "m \<notin> set ms" by (simp add: count_list_0_iff)
    have mnew: "m \<notin> set new" using snew mn by auto
    have z: "indeg m - int (count_list (m # ms) m) = 0" using True c0 by simp
    have "relax keys (m # ms) (indeg, q) =
            Inr (\<lambda>x. indeg x - int (count_list (m # ms) x), q @ (m # new))"
      using step True by simp
    moreover have "distinct (m # new)" using dn mnew by simp
    moreover have "set (m # new) = {x \<in> set (m # ms). indeg x - int (count_list (m # ms) x) = 0}"
      using snew z by auto
    ultimately show ?thesis by blast
  next
    case False
    have "relax keys (m # ms) (indeg, q) =
            Inr (\<lambda>x. indeg x - int (count_list (m # ms) x), q @ new)"
      using step False by simp
    moreover have "set new = {x \<in> set (m # ms). indeg x - int (count_list (m # ms) x) = 0}"
    proof -
      have "indeg m - int (count_list (m # ms) m) = 0 \<Longrightarrow> m \<in> set ms"
      proof -
        assume "indeg m - int (count_list (m # ms) m) = 0"
        then have "count_list ms m \<noteq> 0" using False by auto
        then show "m \<in> set ms" by (simp add: count_list_0_iff)
      qed
      then show ?thesis using snew by auto
    qed
    ultimately show ?thesis using dn by blast
  qed
qed


subsection \<open>Topological sort: the outer loop\<close>

lemma count_adj_of:
  "count_list (adj_of G n) x = length (filter (\<lambda>p. fst p = n \<and> snd p = x) G)"
  by (induction G) (auto simp: adj_of_def)

lemma filter_split_length:
  "length (filter P xs) = length (filter (\<lambda>x. P x \<and> R x) xs) + length (filter (\<lambda>x. P x \<and> \<not> R x) xs)"
  by (induction xs) auto

lemma before_append: "before xs u v \<Longrightarrow> before (xs @ ys) u v"
  unfolding before_def
proof -
  assume "\<exists>i j. i < j \<and> j < length xs \<and> xs ! i = u \<and> xs ! j = v"
  then obtain i j where "i < j" "j < length xs" "xs ! i = u" "xs ! j = v" by blast
  then have "i < j \<and> j < length (xs @ ys) \<and> (xs @ ys) ! i = u \<and> (xs @ ys) ! j = v"
    by (simp add: nth_append)
  then show "\<exists>i j. i < j \<and> j < length (xs @ ys) \<and> (xs @ ys) ! i = u \<and> (xs @ ys) ! j = v"
    by blast
qed

lemma before_last: "u \<in> set xs \<Longrightarrow> before (xs @ [v]) u v"
  unfolding before_def
proof -
  assume "u \<in> set xs"
  then obtain i where "i < length xs" "xs ! i = u" by (auto simp: in_set_conv_nth)
  then have "i < length xs \<and> length xs < length (xs @ [v]) \<and> (xs @ [v]) ! i = u
             \<and> (xs @ [v]) ! length xs = v"
    by (simp add: nth_append)
  then show "\<exists>i j. i < j \<and> j < length (xs @ [v]) \<and> (xs @ [v]) ! i = u \<and> (xs @ [v]) ! j = v"
    by blast
qed

lemma kahn_inv_step:
  assumes inv: "kahn_inv ids G indeg (n # q) order_ids"
    and ends: "\<forall>p\<in>set G. fst p \<in> set ids \<and> snd p \<in> set ids"
  shows "\<exists>s. relax ids (adj_of G n) (indeg, q) = Inr s
             \<and> kahn_inv ids G (fst s) (snd s) (order_ids @ [n])"
proof -
  let ?ms = "adj_of G n"
  have dist: "distinct (order_ids @ n # q)" and sub: "set (order_ids @ n # q) \<subseteq> set ids"
    and cnt: "\<And>m. indeg m = int (length (filter (\<lambda>p. snd p = m \<and> fst p \<notin> set order_ids) G))"
    and zero: "\<And>m. m \<in> set ids \<Longrightarrow> m \<in> set (order_ids @ n # q) \<longleftrightarrow> indeg m = 0"
    and topo: "\<And>p. p \<in> set G \<Longrightarrow> snd p \<in> set order_ids \<Longrightarrow> before order_ids (fst p) (snd p)"
    using inv unfolding kahn_inv_def by blast+
  have n_new: "n \<notin> set order_ids" and n_id: "n \<in> set ids" using dist sub by auto
  have n_zero: "indeg n = 0" using zero [OF n_id] by simp
  have ms_ids: "set ?ms \<subseteq> set ids" using ends by (auto simp: adj_of_def)
  have bound: "int (count_list ?ms x) \<le> indeg x" for x
  proof -
    have "length (filter (\<lambda>p. fst p = n \<and> snd p = x) G)
            \<le> length (filter (\<lambda>p. snd p = x \<and> fst p \<notin> set order_ids) G)"
      by (rule filter_length_le) (use n_new in auto)
    then show ?thesis by (simp add: count_adj_of cnt)
  qed
  from relax_result [of ?ms ids indeg q] ms_ids bound
  obtain new where run: "relax ids ?ms (indeg, q)
                           = Inr (\<lambda>x. indeg x - int (count_list ?ms x), q @ new)"
    and dnew: "distinct new"
    and snew: "set new = {x \<in> set ?ms. indeg x - int (count_list ?ms x) = 0}"
    by blast
  let ?i = "\<lambda>x. indeg x - int (count_list ?ms x)"
  have cnt': "?i m = int (length (filter (\<lambda>p. snd p = m \<and> fst p \<notin> set (order_ids @ [n])) G))" for m
  proof -
    have a: "length (filter (\<lambda>p. snd p = m \<and> fst p \<notin> set order_ids) G)
           = length (filter (\<lambda>p. (snd p = m \<and> fst p \<notin> set order_ids) \<and> fst p = n) G)
             + length (filter (\<lambda>p. (snd p = m \<and> fst p \<notin> set order_ids) \<and> \<not> fst p = n) G)"
      by (rule filter_split_length)
    have b: "filter (\<lambda>p. (snd p = m \<and> fst p \<notin> set order_ids) \<and> fst p = n) G
           = filter (\<lambda>p. fst p = n \<and> snd p = m) G"
      by (rule filter_cong) (use n_new in auto)
    have c: "filter (\<lambda>p. (snd p = m \<and> fst p \<notin> set order_ids) \<and> \<not> fst p = n) G
           = filter (\<lambda>p. snd p = m \<and> fst p \<notin> set (order_ids @ [n])) G"
      by (rule filter_cong) auto
    have a': "length (filter (\<lambda>p. snd p = m \<and> fst p \<notin> set order_ids) G)
           = length (filter (\<lambda>p. fst p = n \<and> snd p = m) G)
             + length (filter (\<lambda>p. snd p = m \<and> fst p \<notin> set (order_ids @ [n])) G)"
      by (simp only: a b c)
    have "indeg m = int (count_list ?ms m)
             + int (length (filter (\<lambda>p. snd p = m \<and> fst p \<notin> set (order_ids @ [n])) G))"
      by (simp only: cnt [of m] a' count_adj_of of_nat_add)
    then show ?thesis by linarith
  qed
  have new_pos: "indeg x \<noteq> 0" if "x \<in> set new" for x
  proof -
    from that snew have "x \<in> set ?ms" and z: "indeg x - int (count_list ?ms x) = 0" by auto
    then have "count_list ?ms x \<noteq> 0" by (simp add: count_list_0_iff)
    then show ?thesis using z by auto
  qed
  have new_ids: "set new \<subseteq> set ids" using snew ms_ids by auto
  have new_fresh: "x \<notin> set (order_ids @ n # q)" if "x \<in> set new" for x
    using new_pos [OF that] zero [of x] new_ids that by auto
  have dist': "distinct ((order_ids @ [n]) @ q @ new)"
    using dist dnew new_fresh by auto
  have sub': "set ((order_ids @ [n]) @ q @ new) \<subseteq> set ids"
    using sub new_ids by auto
  have zero': "m \<in> set ((order_ids @ [n]) @ q @ new) \<longleftrightarrow> ?i m = 0" if m: "m \<in> set ids" for m
  proof (cases "m \<in> set (order_ids @ n # q)")
    case True
    then have "indeg m = 0" using zero [OF m] by simp
    moreover have "int (count_list ?ms m) \<le> indeg m" by (rule bound)
    ultimately have "?i m = 0" by simp
    then show ?thesis using True by auto
  next
    case False
    then have nz: "indeg m \<noteq> 0" using zero [OF m] by simp
    have "m \<in> set new \<longleftrightarrow> ?i m = 0"
    proof
      assume "m \<in> set new"
      then show "?i m = 0" using snew by auto
    next
      assume z: "?i m = 0"
      then have "count_list ?ms m \<noteq> 0" using nz by auto
      then have "m \<in> set ?ms" by (simp add: count_list_0_iff)
      then show "m \<in> set new" using snew z by auto
    qed
    then show ?thesis using False by auto
  qed
  have topo': "before (order_ids @ [n]) (fst p) (snd p)"
    if p: "p \<in> set G" and sp: "snd p \<in> set (order_ids @ [n])" for p
  proof (cases "snd p \<in> set order_ids")
    case True
    then show ?thesis using topo [OF p] before_append by blast
  next
    case False
    then have eq: "snd p = n" using sp by simp
    have "filter (\<lambda>p. snd p = n \<and> fst p \<notin> set order_ids) G = []"
      using n_zero cnt [of n] by simp
    then have "fst p \<in> set order_ids" using p eq by (auto simp: filter_empty_conv)
    then show ?thesis using eq before_last by metis
  qed
  have "kahn_inv ids G ?i (q @ new) (order_ids @ [n])"
    unfolding kahn_inv_def using dist' sub' cnt' zero' topo' by blast
  then show ?thesis using run by auto
qed

lemma kahn_run:
  assumes "kahn_inv ids G indeg q order_ids"
    and "\<forall>p\<in>set G. fst p \<in> set ids \<and> snd p \<in> set ids"
    and "adj = adj_of G"
  shows "\<exists>res indeg'. kahn ids adj indeg q order_ids = Inr res \<and> kahn_inv ids G indeg' [] res"
  using assms
proof (induction ids adj indeg q order_ids rule: kahn.induct)
  case (1 keys adj indeg order_ids)
  then show ?case by auto
next
  case (2 keys adj indeg n q order_ids)
  from kahn_inv_step [OF "2.prems"(1) "2.prems"(2)]
  obtain s where run: "relax keys (adj_of G n) (indeg, q) = Inr s"
    and inv: "kahn_inv keys G (fst s) (snd s) (order_ids @ [n])"
    by blast
  have run': "relax keys (adj n) (indeg, q) = Inr s" using run "2.prems"(3) by simp
  from "2.IH" [OF run' inv "2.prems"(2) "2.prems"(3)]
  obtain res indeg' where "kahn keys adj (fst s) (snd s) (order_ids @ [n]) = Inr res"
    and "kahn_inv keys G indeg' [] res"
    by blast
  then show ?case using run' by auto
qed


subsection \<open>Topological sort: the result\<close>

lemma dict_keys_subset: "set (dict_keys xs) \<subseteq> set xs"
  by (induction xs) auto

lemma dict_keys_distinct: "distinct xs \<Longrightarrow> dict_keys xs = xs"
proof (induction xs)
  case Nil
  then show ?case by simp
next
  case (Cons k ks)
  then have "dict_keys ks = ks" and "k \<notin> set ks" by simp_all
  then show ?case by (auto simp: filter_id_conv)
qed

lemma kahn_inv_init:
  "distinct ids \<Longrightarrow> kahn_inv ids G (indeg_of G) (filter (\<lambda>k. indeg_of G k = 0) ids) []"
  by (auto simp: kahn_inv_def indeg_of_def)

lemma before_trans:
  assumes "distinct xs" and "before xs u v" and "before xs v w"
  shows "before xs u w"
proof -
  from assms(2) obtain i j where ij: "i < j" "j < length xs" "xs ! i = u" "xs ! j = v"
    unfolding before_def by blast
  from assms(3) obtain j' k where jk: "j' < k" "k < length xs" "xs ! j' = v" "xs ! k = w"
    unfolding before_def by blast
  have "j' < length xs" using jk by simp
  moreover have "xs ! j = xs ! j'" using ij jk by simp
  ultimately have "j = j'" using nth_eq_iff_index_eq [OF assms(1) ij(2)] by blast
  then have "i < k \<and> k < length xs \<and> xs ! i = u \<and> xs ! k = w" using ij jk by simp
  then show ?thesis unfolding before_def by blast
qed

lemma before_irrefl:
  assumes "distinct xs" shows "\<not> before xs u u"
proof
  assume "before xs u u"
  then obtain i j where ij: "i < j" "j < length xs" "xs ! i = u" "xs ! j = u"
    unfolding before_def by blast
  then have "i < length xs" and "xs ! i = xs ! j" by simp_all
  then have "i = j" using nth_eq_iff_index_eq [OF assms _ ij(2)] by blast
  then show False using ij(1) by simp
qed

lemma topo_order_acyclic:
  assumes d: "distinct xs" and t: "\<forall>p\<in>set G. before xs (fst p) (snd p)"
  shows "acyclic (set G)"
proof -
  have "(u, v) \<in> (set G)\<^sup>+ \<Longrightarrow> before xs u v" for u v
  proof (induction rule: trancl.induct)
    case (r_into_trancl a b)
    then show ?case using t by force
  next
    case (trancl_into_trancl a b c)
    then have "before xs b c" using t by force
    then show ?case using before_trans [OF d] trancl_into_trancl.IH by blast
  qed
  then show ?thesis using before_irrefl [OF d] unfolding acyclic_def by blast
qed

lemma kahn_final:
  assumes inv: "kahn_inv ids G indeg [] res"
    and ends: "\<forall>p\<in>set G. fst p \<in> set ids \<and> snd p \<in> set ids"
    and di: "distinct ids"
  shows "distinct res" and "set res \<subseteq> set ids"
    and "length res = length ids \<longleftrightarrow> set res = set ids"
    and "acyclic (set G) \<longleftrightarrow> set res = set ids"
    and "set res = set ids \<Longrightarrow> \<forall>p\<in>set G. before res (fst p) (snd p)"
proof -
  have dist: "distinct res" and sub: "set res \<subseteq> set ids"
    and cnt: "\<And>m. indeg m = int (length (filter (\<lambda>p. snd p = m \<and> fst p \<notin> set res) G))"
    and zero: "\<And>m. m \<in> set ids \<Longrightarrow> m \<in> set res \<longleftrightarrow> indeg m = 0"
    and topo: "\<And>p. p \<in> set G \<Longrightarrow> snd p \<in> set res \<Longrightarrow> before res (fst p) (snd p)"
    using inv unfolding kahn_inv_def by auto
  show "distinct res" by (rule dist)
  show "set res \<subseteq> set ids" by (rule sub)
  show len: "length res = length ids \<longleftrightarrow> set res = set ids"
  proof
    assume "length res = length ids"
    then have "card (set res) = card (set ids)" using dist di by (simp add: distinct_card)
    then show "set res = set ids" using sub by (simp add: card_subset_eq)
  next
    assume "set res = set ids"
    then have "card (set res) = card (set ids)" by simp
    then show "length res = length ids" using dist di by (simp add: distinct_card)
  qed
  have all: "\<forall>p\<in>set G. before res (fst p) (snd p)" if eq: "set res = set ids"
    using topo ends eq by auto
  show "set res = set ids \<Longrightarrow> \<forall>p\<in>set G. before res (fst p) (snd p)" by (rule all)
  show "acyclic (set G) \<longleftrightarrow> set res = set ids"
  proof
    assume ac: "acyclic (set G)"
    have wf: "wf (set G)" by (rule finite_acyclic_wf) (use ac in auto)
    show "set res = set ids"
    proof (rule ccontr)
      assume "set res \<noteq> set ids"
      then obtain x where x: "x \<in> set ids - set res" using sub by auto
      from wf x obtain z where z: "z \<in> set ids - set res"
        and least: "\<And>y. (y, z) \<in> set G \<Longrightarrow> y \<notin> set ids - set res"
        unfolding wf_eq_minimal by blast
      have "indeg z \<noteq> 0" using zero [of z] z by auto
      then have "filter (\<lambda>p. snd p = z \<and> fst p \<notin> set res) G \<noteq> []"
        using cnt [of z] by auto
      then obtain p where p: "p \<in> set G" "snd p = z" "fst p \<notin> set res"
        by (auto simp: filter_empty_conv)
      then have "fst p \<in> set ids - set res" using ends by auto
      moreover have "(fst p, z) \<in> set G" using p by (metis prod.collapse)
      ultimately show False using least by blast
    qed
  next
    assume eq: "set res = set ids"
    show "acyclic (set G)" by (rule topo_order_acyclic [OF dist all [OF eq]])
  qed
qed

lemma id_to_node_distinct:
  assumes "distinct (map nid nodes)" and "n \<in> set nodes"
  shows "id_to_node nodes (nid n) = Some n"
proof -
  have "distinct (map fst (rev (map (\<lambda>n. (nid n, n)) nodes)))"
    using assms(1) by (simp add: rev_map [symmetric] comp_def)
  moreover have "(nid n, n) \<in> set (rev (map (\<lambda>n. (nid n, n)) nodes))"
    using assms(2) by auto
  ultimately show ?thesis unfolding id_to_node_def by (rule map_of_is_SomeI)
qed

lemma fetch_nodes_ok:
  "set is \<subseteq> set (map nid nodes) \<Longrightarrow> distinct (map nid nodes) \<Longrightarrow>
   \<exists>res. fetch_nodes nodes is = Inr res \<and> map nid res = is \<and> set res \<subseteq> set nodes"
proof (induction "is")
  case Nil
  then show ?case by simp
next
  case (Cons i "is")
  then obtain res where r: "fetch_nodes nodes is = Inr res" "map nid res = is" "set res \<subseteq> set nodes"
    by auto
  from Cons.prems obtain n where n: "n \<in> set nodes" "nid n = i" by auto
  then have "id_to_node nodes i = Some n" using id_to_node_distinct Cons.prems(2) by blast
  then show ?case using r n by simp
qed

lemma before_precedes:
  "map nid res = is \<Longrightarrow> before is u v \<Longrightarrow> precedes res u v"
  unfolding before_def precedes_def by (metis length_map nth_map order.strict_trans)

lemma perm_of_ids:
  assumes "map nid res = is" and "set res \<subseteq> set nodes" and "distinct (map nid nodes)"
    and "distinct is" and "set is = set (map nid nodes)"
  shows "mset res = mset nodes"
proof -
  have dn: "distinct nodes" using assms(3) by (simp add: distinct_map)
  have "distinct (map nid res)" using assms(1,4) by simp
  then have dr: "distinct res" by (simp add: distinct_map)
  have "length res = length nodes"
    using assms by (metis distinct_card length_map)
  then have "card (set res) = card (set nodes)" using dn dr by (simp add: distinct_card)
  then have "set res = set nodes" using assms(2) by (simp add: card_subset_eq)
  then show ?thesis using dn dr by (simp add: set_eq_iff_mset_eq_distinct)
qed

text \<open>
  Claim C6, as the code has it. Take nodes with pairwise distinct ids and the graph that
  \<open>topological_sort\<close> sorts (the edge list, or the nodes' inputs when the edge list is
  empty), all of whose ends are node ids. If the graph is acyclic, the function returns a
  permutation of the nodes in which the source of every pair stands before its
  destination. If the graph has a cycle, it raises the cycle error. In both cases it
  returns: Kahn's loop terminates.
\<close>

theorem topological_sort_correct:
  assumes di: "distinct (map nid nodes)" and ee: "endpoints_exist nodes edges"
  shows "(acyclic (set (graph_edges nodes edges)) \<longrightarrow>
           (\<exists>res. topological_sort nodes edges = Inr res \<and> mset res = mset nodes
              \<and> (\<forall>p\<in>set (graph_edges nodes edges). precedes res (fst p) (snd p))))
       \<and> (\<not> acyclic (set (graph_edges nodes edges)) \<longrightarrow>
           topological_sort nodes edges = Inl Cycle)"
proof -
  let ?G = "graph_edges nodes edges"
  let ?ids = "map nid nodes"
  have ends: "\<forall>p\<in>set ?G. fst p \<in> set ?ids \<and> snd p \<in> set ?ids"
    using ee by (simp add: endpoints_exist_def list_all_iff)
  have build: "build_adj nodes edges = Inr (adj_of ?G, indeg_of ?G)"
    by (rule build_adj_ok [OF ee])
  have keys: "dict_keys ?ids = ?ids" by (rule dict_keys_distinct [OF di])
  from kahn_run [OF kahn_inv_init [OF di, of ?G] ends refl]
  obtain ord indeg' where run: "kahn ?ids (adj_of ?G) (indeg_of ?G)
                                  (filter (\<lambda>k. indeg_of ?G k = 0) ?ids) [] = Inr ord"
    and inv: "kahn_inv ?ids ?G indeg' [] ord"
    by blast
  note fin = kahn_final [OF inv ends di]
  have ts: "topological_sort nodes edges =
              (if length ord \<noteq> length nodes then Inl Cycle else fetch_nodes nodes ord)"
    by (simp add: topological_sort_def build keys run Let_def)
  have len: "length ord = length nodes \<longleftrightarrow> acyclic (set ?G)"
    using fin(3) fin(4) by simp
  have A: "acyclic (set ?G) \<longrightarrow>
           (\<exists>res. topological_sort nodes edges = Inr res \<and> mset res = mset nodes
              \<and> (\<forall>p\<in>set ?G. precedes res (fst p) (snd p)))"
  proof
    assume ac: "acyclic (set ?G)"
    then have eq: "set ord = set ?ids" using fin(4) by simp
    from fetch_nodes_ok [OF fin(2) di]
    obtain res where r: "fetch_nodes nodes ord = Inr res" "map nid res = ord" "set res \<subseteq> set nodes"
      by blast
    have t: "topological_sort nodes edges = Inr res" using ts len ac r by simp
    have m: "mset res = mset nodes" by (rule perm_of_ids [OF r(2) r(3) di fin(1) eq])
    have "\<forall>p\<in>set ?G. precedes res (fst p) (snd p)"
      using fin(5) [OF eq] before_precedes [OF r(2)] by blast
    then show "\<exists>res. topological_sort nodes edges = Inr res \<and> mset res = mset nodes
              \<and> (\<forall>p\<in>set ?G. precedes res (fst p) (snd p))"
      using t m by blast
  qed
  have B: "\<not> acyclic (set ?G) \<longrightarrow> topological_sort nodes edges = Inl Cycle"
    using ts len by simp
  show ?thesis using A B by blast
qed

text \<open>The two-node cycle, evaluated: no node has in-degree 0, the queue starts empty and
  no id emerges.\<close>

lemma two_node_cycle_rejected:
  "topological_sort cycle_nodes cycle_edges = Inl Cycle"
  by (simp add: topological_sort_def build_adj_def cycle_nodes_def cycle_edges_def mk_node_def
      mk_edge_def link_def Let_def)

text \<open>Two nodes that share an id, and no edges: the dictionaries hold one key, one id
  emerges where two nodes went in, and the cycle error is raised for an acyclic graph.\<close>

theorem duplicate_ids_counterexample:
  "endpoints_exist twin_nodes []
   \<and> acyclic (set (graph_edges twin_nodes []))
   \<and> topological_sort twin_nodes [] = Inl Cycle"
  by (simp add: topological_sort_def build_adj_def twin_nodes_def mk_node_def Let_def
      endpoints_exist_def graph_edges_def acyclic_def)


theorem topological_sort_correct_witness:
  "topological_sort cycle_nodes cycle_edges = Inl Cycle
   \<and> (\<exists>res. topological_sort (ir_nodes sum_ir) (ir_edges sum_ir) = Inr res
          \<and> mset res = mset (ir_nodes sum_ir)
          \<and> precedes res ''L3'' ''A'' \<and> precedes res ''L4'' ''A'')"
proof -
  have g1: "graph_edges cycle_nodes cycle_edges = [(''X'', ''Y''), (''Y'', ''X'')]"
    by (simp add: graph_edges_def cycle_edges_def mk_edge_def)
  have d1: "distinct (map nid cycle_nodes)"
    by (simp add: cycle_nodes_def mk_node_def)
  have e1: "endpoints_exist cycle_nodes cycle_edges"
    by (simp add: endpoints_exist_def g1) (simp add: cycle_nodes_def mk_node_def)
  have "(''X'', ''Y'') \<in> set (graph_edges cycle_nodes cycle_edges)"
    and "(''Y'', ''X'') \<in> set (graph_edges cycle_nodes cycle_edges)"
    by (simp_all add: g1)
  then have "(''X'', ''X'') \<in> (set (graph_edges cycle_nodes cycle_edges))\<^sup>+"
    by (rule trancl.intros(2) [OF trancl.intros(1)])
  then have c1: "\<not> acyclic (set (graph_edges cycle_nodes cycle_edges))"
    unfolding acyclic_def by blast
  have cyc: "topological_sort cycle_nodes cycle_edges = Inl Cycle"
    using topological_sort_correct [OF d1 e1] c1 by blast
  let ?ns = "ir_nodes sum_ir" and ?es = "ir_edges sum_ir"
  have g2: "graph_edges ?ns ?es = [(''L3'', ''A''), (''L4'', ''A'')]"
    by (simp add: graph_edges_def sum_ir_def mk_node_def)
  have d2: "distinct (map nid ?ns)"
    by (simp add: sum_ir_def mk_node_def)
  have e2: "endpoints_exist ?ns ?es"
    by (simp add: endpoints_exist_def g2) (simp add: sum_ir_def mk_node_def)
  have b1: "before [''L3'', ''L4'', ''A''] ''L3'' ''A''"
    unfolding before_def by (rule exI [of _ 0], rule exI [of _ 2]) simp
  have b2: "before [''L3'', ''L4'', ''A''] ''L4'' ''A''"
    unfolding before_def by (rule exI [of _ 1], rule exI [of _ 2]) simp
  have a2: "acyclic (set (graph_edges ?ns ?es))"
    by (rule topo_order_acyclic [of "[''L3'', ''L4'', ''A'']"]) (simp_all add: g2 b1 b2)
  from topological_sort_correct [OF d2 e2] a2
  obtain res where r: "topological_sort ?ns ?es = Inr res" "mset res = mset ?ns"
    and p: "\<forall>p\<in>set (graph_edges ?ns ?es). precedes res (fst p) (snd p)"
    by blast
  have "precedes res ''L3'' ''A''" and "precedes res ''L4'' ''A''"
    using p by (simp_all add: g2)
  then show ?thesis using cyc r by blast
qed


end
